theory Spec2Isabelle
  imports Complex_Main
begin

section \<open>Highlight ranges\<close>

text \<open>
  A highlight range is the object \<^verbatim>\<open>{ start, end, type }\<close> of the renderer. Its
  bounds are fractions of the track; they are modelled as exact rationals (the rounding
  of IEEE doubles is outside this development). The tag is a JavaScript string, or
  absent (\<open>None\<close>) for ranges stored before tags existed.
\<close>

record highlight =
  r_start :: rat
  r_end :: rat
  r_type :: "string option"

subsection \<open>Serialization\<close>

text \<open>
  \<^verbatim>\<open>Number(x.toFixed(4))\<close>: \<^verbatim>\<open>toFixed\<close> takes the sign off, picks the integer \<open>n\<close>
  with \<open>n / 10^4\<close> nearest to the magnitude (the larger one on a tie) and puts the
  sign back.
\<close>

definition toFixed4 :: "rat \<Rightarrow> rat" where
  "toFixed4 x =
     (if x < 0 then - (of_int \<lfloor>(- x) * 10000 + 1 / 2\<rfloor> / 10000)
      else of_int \<lfloor>x * 10000 + 1 / 2\<rfloor> / 10000)"

type_synonym serialized = "rat \<times> rat \<times> string"

definition serializeHighlight :: "highlight \<Rightarrow> serialized" where
  "serializeHighlight rng =
     (toFixed4 (r_start rng), toFixed4 (r_end rng),
      (if r_type rng = Some ''break'' then ''b''
       else if r_type rng = Some ''bookmark'' then ''k'' else ''o''))"

definition serializeHighlights :: "highlight list \<Rightarrow> serialized list" where
  "serializeHighlights ranges = map serializeHighlight ranges"

fun deserializeHighlight :: "serialized \<Rightarrow> highlight" where
  "deserializeHighlight (start, end', kind) =
     \<lparr> r_start = start, r_end = end',
       r_type = Some (if kind = ''b'' then ''break''
                      else if kind = ''k'' then ''bookmark'' else ''object'') \<rparr>"

definition deserializeHighlights :: "serialized list \<Rightarrow> highlight list" where
  "deserializeHighlights ranges = map deserializeHighlight ranges"

text \<open>What the specification calls rounding to four decimal places.\<close>

definition rounded4 :: "rat \<Rightarrow> rat \<Rightarrow> bool" where
  "rounded4 x y = ((\<exists>n::int. y = of_int n / 10000) \<and> \<bar>y - x\<bar> \<le> 1 / 20000)"

definition known_kind :: "highlight \<Rightarrow> bool" where
  "known_kind r = (r_type r = Some ''object'' \<or> r_type r = Some ''break''
                   \<or> r_type r = Some ''bookmark'')"

subsection \<open>Progress\<close>

text \<open>
  \<^verbatim>\<open>computeProgress\<close> reads the global \<^verbatim>\<open>settings.ignoreStartAndBreaks\<close>; the model
  takes it as its first argument. \<^verbatim>\<open>reduce\<close> is a left fold from 0 and
  \<^verbatim>\<open>Math.min(...xs)\<close>, called on a non-empty array only, a left fold of \<open>min\<close>.
  \<^verbatim>\<open>!r.type\<close> holds of an absent tag and of the empty string.
\<close>

definition is_object_range :: "highlight \<Rightarrow> bool" where
  "is_object_range r = (r_type r = Some ''object'' \<or> r_type r = None \<or> r_type r = Some [])"

definition is_break_range :: "highlight \<Rightarrow> bool" where
  "is_break_range r = (r_type r = Some ''break'')"

definition sum_lengths :: "highlight list \<Rightarrow> rat" where
  "sum_lengths rs = foldl (\<lambda>sum r. sum + (r_end r - r_start r)) 0 rs"

fun math_min_spread :: "rat list \<Rightarrow> rat" where
  "math_min_spread [] = 0"
| "math_min_spread (x # xs) = foldl min x xs"

definition computeProgress :: "bool \<Rightarrow> highlight list \<Rightarrow> rat" where
  "computeProgress ignoreStartAndBreaks ranges =
     (if ranges = [] then 0
      else
        let objectRanges = filter is_object_range ranges;
            breakRanges = filter is_break_range ranges;
            populated = sum_lengths objectRanges
        in
          if ignoreStartAndBreaks then
            let firstStart = (if objectRanges \<noteq> [] then math_min_spread (map r_start objectRanges) else 0);
                breakSum = sum_lengths breakRanges;
                populated' = populated + breakSum;
                total = max (1 / 1000) (1 - firstStart)
            in min 1 (populated' / total)
          else min 1 populated)"

section \<open>Properties\<close>

lemma toFixed4_rounded4: "rounded4 x (toFixed4 x)"
proof (cases "x < 0")
  case False
  define n where "n = \<lfloor>x * 10000 + 1 / 2\<rfloor>"
  have "of_int n \<le> x * 10000 + 1 / 2" "x * 10000 + 1 / 2 < of_int n + 1"
    unfolding n_def by linarith+
  then have "\<bar>of_int n / 10000 - x\<bar> \<le> 1 / 20000"
    by (intro abs_leI) linarith+
  with False show ?thesis
    unfolding rounded4_def toFixed4_def n_def by auto
next
  case True
  define n where "n = \<lfloor>(- x) * 10000 + 1 / 2\<rfloor>"
  have "of_int n \<le> (- x) * 10000 + 1 / 2" "(- x) * 10000 + 1 / 2 < of_int n + 1"
    unfolding n_def by linarith+
  then have b: "\<bar>- (of_int n / 10000) - x\<bar> \<le> 1 / 20000"
    by (intro abs_leI) linarith+
  have "- (rat_of_int n / 10000) = of_int (- n) / 10000"
    by simp
  then have "\<exists>m::int. - (rat_of_int n / 10000) = of_int m / 10000"
    by blast
  with True b show ?thesis
    unfolding rounded4_def toFixed4_def n_def by simp
qed

subsection \<open>Deserialization accepts every kind letter\<close>

lemma deserializeHighlights_length: "length (deserializeHighlights ts) = length ts"
  by (simp add: deserializeHighlights_def)

lemma deserializeHighlights_nth:
  "i < length ts \<Longrightarrow> deserializeHighlights ts ! i = deserializeHighlight (ts ! i)"
  by (simp add: deserializeHighlights_def)

text \<open>
  Claim C10. \<^verbatim>\<open>deserializeHighlights\<close> keeps every tuple, in its place and with its
  bounds: the result is as long as the input, and its \<open>i\<close>-th range is tagged \<open>break\<close>
  for the kind \<open>b\<close>, \<open>bookmark\<close> for the kind \<open>k\<close>, and \<open>object\<close> for every other kind,
  the letter \<open>o\<close> and unknown letters alike.
\<close>

theorem deserializeHighlights_kinds:
  "length (deserializeHighlights ts) = length ts \<and>
   (\<forall>i < length ts. \<forall>s e kind. ts ! i = (s, e, kind) \<longrightarrow>
      r_start (deserializeHighlights ts ! i) = s \<and>
      r_end (deserializeHighlights ts ! i) = e \<and>
      (kind = ''b'' \<longrightarrow> r_type (deserializeHighlights ts ! i) = Some ''break'') \<and>
      (kind = ''k'' \<longrightarrow> r_type (deserializeHighlights ts ! i) = Some ''bookmark'') \<and>
      (kind \<noteq> ''b'' \<and> kind \<noteq> ''k'' \<longrightarrow> r_type (deserializeHighlights ts ! i) = Some ''object''))"
proof (intro conjI allI impI)
  show "length (deserializeHighlights ts) = length ts"
    by (rule deserializeHighlights_length)
next
  fix i s e kind
  assume i: "i < length ts" and t: "ts ! i = (s, e, kind)"
  have d: "deserializeHighlights ts ! i = deserializeHighlight (s, e, kind)"
    using deserializeHighlights_nth [OF i] t by simp
  show "r_start (deserializeHighlights ts ! i) = s" using d by simp
  show "r_end (deserializeHighlights ts ! i) = e" using d by simp
  { assume "kind = ''b''"
    then show "r_type (deserializeHighlights ts ! i) = Some ''break''" using d by simp }
  { assume "kind = ''k''"
    then show "r_type (deserializeHighlights ts ! i) = Some ''bookmark''" using d by simp }
  { assume "kind \<noteq> ''b'' \<and> kind \<noteq> ''k''"
    then show "r_type (deserializeHighlights ts ! i) = Some ''object''" using d by simp }
qed

theorem deserializeHighlights_kinds_witness:
  "r_type (deserializeHighlights [(0, 1 / 2, ''b''), (1 / 4, 1 / 2, ''x''), (0, 1, ''k'')] ! 0)
     = Some ''break'' \<and>
   r_type (deserializeHighlights [(0, 1 / 2, ''b''), (1 / 4, 1 / 2, ''x''), (0, 1, ''k'')] ! 1)
     = Some ''object'' \<and>
   r_type (deserializeHighlights [(0, 1 / 2, ''b''), (1 / 4, 1 / 2, ''x''), (0, 1, ''k'')] ! 2)
     = Some ''bookmark'' \<and>
   length (deserializeHighlights [(0, 1 / 2, ''b''), (1 / 4, 1 / 2, ''x''), (0, 1, ''k'')]) = 3"
proof -
  let ?ts = "[(0::rat, 1 / 2 :: rat, ''b''), (1 / 4, 1 / 2, ''x''), (0, 1, ''k'')]"
  note k = deserializeHighlights_kinds [of ?ts]
  from k have len: "length (deserializeHighlights ?ts) = 3" by simp
  from k have a: "\<forall>i < length ?ts. \<forall>s e kind. ?ts ! i = (s, e, kind) \<longrightarrow>
      (kind = ''b'' \<longrightarrow> r_type (deserializeHighlights ?ts ! i) = Some ''break'') \<and>
      (kind = ''k'' \<longrightarrow> r_type (deserializeHighlights ?ts ! i) = Some ''bookmark'') \<and>
      (kind \<noteq> ''b'' \<and> kind \<noteq> ''k'' \<longrightarrow> r_type (deserializeHighlights ?ts ! i) = Some ''object'')"
    by blast
  have "r_type (deserializeHighlights ?ts ! 0) = Some ''break''"
    using a [rule_format, of 0 0 "1 / 2" "''b''"] by simp
  moreover have "r_type (deserializeHighlights ?ts ! 1) = Some ''object''"
    using a [rule_format, of 1 "1 / 4" "1 / 2" "''x''"] by simp
  moreover have "r_type (deserializeHighlights ?ts ! 2) = Some ''bookmark''"
    using a [rule_format, of 2 0 1 "''k''"] by simp
  ultimately show ?thesis using len by simp
qed

subsection \<open>Serialization round trip\<close>

lemma serialize_kind_roundtrip:
  "known_kind r \<Longrightarrow> r_type (deserializeHighlight (serializeHighlight r)) = r_type r"
  unfolding known_kind_def serializeHighlight_def by auto

lemma serialize_bounds_roundtrip:
  "r_start (deserializeHighlight (serializeHighlight r)) = toFixed4 (r_start r)"
  "r_end (deserializeHighlight (serializeHighlight r)) = toFixed4 (r_end r)"
  unfolding serializeHighlight_def by simp_all

text \<open>
  Claim C5. For ranges tagged \<open>object\<close>, \<open>break\<close> or \<open>bookmark\<close>, deserializing the
  serialized list gives a list of the same length whose ranges carry, position by
  position, the same tag and the bounds put through \<^verbatim>\<open>Number(x.toFixed(4))\<close>, which are
  multiples of \<open>1/10000\<close> at most \<open>1/20000\<close> away from the original bounds.
\<close>

theorem serialize_deserialize_roundtrip:
  assumes "\<forall>r \<in> set ranges. known_kind r"
  shows "list_all2
           (\<lambda>r r'. r_type r' = r_type r \<and>
                    r_start r' = toFixed4 (r_start r) \<and> r_end r' = toFixed4 (r_end r) \<and>
                    rounded4 (r_start r) (r_start r') \<and> rounded4 (r_end r) (r_end r'))
           ranges (deserializeHighlights (serializeHighlights ranges))"
  using assms
proof (induction ranges)
  case Nil
  show ?case by (simp add: deserializeHighlights_def serializeHighlights_def)
next
  case (Cons r rs)
  have k: "known_kind r" using Cons.prems by simp
  have tl: "list_all2
           (\<lambda>r r'. r_type r' = r_type r \<and>
                    r_start r' = toFixed4 (r_start r) \<and> r_end r' = toFixed4 (r_end r) \<and>
                    rounded4 (r_start r) (r_start r') \<and> rounded4 (r_end r) (r_end r'))
           rs (deserializeHighlights (serializeHighlights rs))"
    using Cons.IH Cons.prems by simp
  have hd: "r_type (deserializeHighlight (serializeHighlight r)) = r_type r \<and>
      r_start (deserializeHighlight (serializeHighlight r)) = toFixed4 (r_start r) \<and>
      r_end (deserializeHighlight (serializeHighlight r)) = toFixed4 (r_end r) \<and>
      rounded4 (r_start r) (r_start (deserializeHighlight (serializeHighlight r))) \<and>
      rounded4 (r_end r) (r_end (deserializeHighlight (serializeHighlight r)))"
    using serialize_kind_roundtrip [OF k]
    by (simp add: serialize_bounds_roundtrip toFixed4_rounded4)
  have unfold: "deserializeHighlights (serializeHighlights (r # rs)) =
      deserializeHighlight (serializeHighlight r) # deserializeHighlights (serializeHighlights rs)"
    by (simp add: deserializeHighlights_def serializeHighlights_def)
  show ?case unfolding unfold using hd tl by (simp add: toFixed4_rounded4)
qed

theorem serialize_deserialize_roundtrip_witness:
  "deserializeHighlights (serializeHighlights
      [\<lparr> r_start = 1 / 3, r_end = 2 / 3, r_type = Some ''break'' \<rparr>,
       \<lparr> r_start = 1 / 8, r_end = 1, r_type = Some ''bookmark'' \<rparr>])
   = [\<lparr> r_start = 3333 / 10000, r_end = 6667 / 10000, r_type = Some ''break'' \<rparr>,
      \<lparr> r_start = 1 / 8, r_end = 1, r_type = Some ''bookmark'' \<rparr>]"
proof -
  let ?rs = "[\<lparr> r_start = 1 / 3, r_end = 2 / 3, r_type = Some ''break'' \<rparr>,
              \<lparr> r_start = 1 / 8, r_end = 1, r_type = Some ''bookmark'' \<rparr>]"
  have k: "\<forall>r \<in> set ?rs. known_kind r"
    by (simp add: known_kind_def)
  have f: "toFixed4 (1 / 3) = 3333 / 10000" "toFixed4 (2 / 3) = 6667 / 10000"
    "toFixed4 (1 / 8) = 1 / 8" "toFixed4 1 = 1"
    by (simp_all add: toFixed4_def floor_eq_iff)
  obtain a b where ab: "deserializeHighlights (serializeHighlights ?rs) = [a, b]"
    by (simp add: deserializeHighlights_def serializeHighlights_def)
  from serialize_deserialize_roundtrip [OF k] ab
  have "r_type a = Some ''break'' \<and> r_start a = 3333 / 10000 \<and> r_end a = 6667 / 10000"
    and "r_type b = Some ''bookmark'' \<and> r_start b = 1 / 8 \<and> r_end b = 1"
    by (simp_all add: f)
  then have "a = \<lparr> r_start = 3333 / 10000, r_end = 6667 / 10000, r_type = Some ''break'' \<rparr>"
    and "b = \<lparr> r_start = 1 / 8, r_end = 1, r_type = Some ''bookmark'' \<rparr>"
    by simp_all
  with ab show ?thesis by simp
qed

subsection \<open>Progress\<close>

lemma foldl_lengths:
  "foldl (\<lambda>sum r. sum + (r_end r - r_start r)) a rs = a + (\<Sum>r\<leftarrow>rs. r_end r - r_start r)"
  by (induction rs arbitrary: a) (simp_all add: add.assoc)

lemma sum_lengths_sum_list: "sum_lengths rs = (\<Sum>r\<leftarrow>rs. r_end r - r_start r)"
  by (simp add: sum_lengths_def foldl_lengths)

lemma foldl_min_Min: "foldl min x xs = Min (set (x # xs))"
proof (induction xs arbitrary: x)
  case Nil
  show ?case by simp
next
  case (Cons y ys)
  have "foldl min x (y # ys) = Min (set (min x y # ys))"
    using Cons.IH by simp
  also have "\<dots> = Min (insert (min x y) (set ys))" by simp
  also have "\<dots> = Min (insert x (insert y (set ys)))"
    by (cases "set ys = {}") (simp_all add: min.assoc)
  finally show ?case by simp
qed

lemma math_min_spread_Min: "xs \<noteq> [] \<Longrightarrow> math_min_spread xs = Min (set xs)"
  by (cases xs) (simp_all only: math_min_spread.simps foldl_min_Min, simp)

text \<open>
  Claim C4. \<^verbatim>\<open>computeProgress\<close> returns 0 on the empty list. With the setting off it
  returns \<open>min 1 populated\<close>, where \<open>populated\<close> sums \<open>end - start\<close> over the ranges
  tagged \<open>object\<close> or untagged (an absent or empty tag). With the setting on it returns
  \<open>min 1 ((populated + breaks) / max 0.001 (1 - firstObjectStart))\<close>, where \<open>breaks\<close>
  sums the lengths of the ranges tagged \<open>break\<close> and \<open>firstObjectStart\<close> is the least
  start among the object ranges, 0 when there are none.
\<close>

theorem computeProgress_formula:
  "computeProgress setting [] = 0 \<and>
   computeProgress False ranges =
     min 1 (\<Sum>r\<leftarrow>filter is_object_range ranges. r_end r - r_start r) \<and>
   computeProgress True ranges =
     min 1 (((\<Sum>r\<leftarrow>filter is_object_range ranges. r_end r - r_start r) +
             (\<Sum>r\<leftarrow>filter is_break_range ranges. r_end r - r_start r))
            / max (1 / 1000)
                (1 - (if filter is_object_range ranges = [] then 0
                      else Min (r_start ` set (filter is_object_range ranges)))))"
proof (intro conjI)
  show "computeProgress setting [] = 0"
    by (simp add: computeProgress_def)
next
  show "computeProgress False ranges =
     min 1 (\<Sum>r\<leftarrow>filter is_object_range ranges. r_end r - r_start r)"
    by (cases "ranges = []") (simp_all add: computeProgress_def sum_lengths_sum_list)
next
  let ?objs = "filter is_object_range ranges"
  have first: "(if ?objs \<noteq> [] then math_min_spread (map r_start ?objs) else 0) =
      (if ?objs = [] then 0 else Min (r_start ` set ?objs))"
  proof (cases "?objs = []")
    case True
    then show ?thesis by simp
  next
    case False
    then have "map r_start ?objs \<noteq> []" by simp
    from math_min_spread_Min [OF this] False show ?thesis by simp
  qed
  show "computeProgress True ranges =
     min 1 (((\<Sum>r\<leftarrow>?objs. r_end r - r_start r) +
             (\<Sum>r\<leftarrow>filter is_break_range ranges. r_end r - r_start r))
            / max (1 / 1000) (1 - (if ?objs = [] then 0 else Min (r_start ` set ?objs))))"
  proof (cases "ranges = []")
    case True
    then show ?thesis by (simp add: computeProgress_def)
  next
    case False
    then have "computeProgress True ranges =
        min 1 ((sum_lengths ?objs + sum_lengths (filter is_break_range ranges))
               / max (1 / 1000)
                  (1 - (if ?objs \<noteq> [] then math_min_spread (map r_start ?objs) else 0)))"
      by (simp add: computeProgress_def Let_def)
    then show ?thesis
      unfolding first by (simp only: sum_lengths_sum_list)
  qed
qed

theorem computeProgress_formula_witness:
  "computeProgress True
     [\<lparr> r_start = 2 / 10, r_end = 3 / 10, r_type = Some ''object'' \<rparr>,
      \<lparr> r_start = 1 / 10, r_end = 2 / 10, r_type = Some ''break'' \<rparr>] = 1 / 4 \<and>
   computeProgress False
     [\<lparr> r_start = 0, r_end = 1 / 2, r_type = Some ''object'' \<rparr>] = 1 / 2"
proof -
  have a: "computeProgress True
     [\<lparr> r_start = 2 / 10, r_end = 3 / 10, r_type = Some ''object'' \<rparr>,
      \<lparr> r_start = 1 / 10, r_end = 2 / 10, r_type = Some ''break'' \<rparr>] = 1 / 4"
    using computeProgress_formula
      [of True "[\<lparr> r_start = 2 / 10, r_end = 3 / 10, r_type = Some ''object'' \<rparr>,
                 \<lparr> r_start = 1 / 10, r_end = 2 / 10, r_type = Some ''break'' \<rparr>]"]
    by (simp add: is_object_range_def is_break_range_def)
  have b: "computeProgress False
     [\<lparr> r_start = 0, r_end = 1 / 2, r_type = Some ''object'' \<rparr>] = 1 / 2"
    using computeProgress_formula
      [of False "[\<lparr> r_start = 0, r_end = 1 / 2, r_type = Some ''object'' \<rparr>]"]
    by (simp add: is_object_range_def is_break_range_def)
  from a b show ?thesis by simp
qed

section \<open>JavaScript numbers\<close>

text \<open>
  The parsers compute with JavaScript numbers. A number is modelled as \<open>NaN\<close> or a finite
  value, and a finite double as the exact rational it denotes: rounding, overflow to an
  infinity and the sign of zero are outside the model. \<open>NaN\<close> is kept because every failed
  \<^verbatim>\<open>parseInt\<close> and \<^verbatim>\<open>parseFloat\<close> produces it and the control flow of the parsers
  depends on how it compares.
\<close>

datatype jsnum = NaN | Num rat

text \<open>Comparisons with \<open>NaN\<close> are false.\<close>

fun js_lt :: "jsnum \<Rightarrow> jsnum \<Rightarrow> bool" where
  "js_lt (Num a) (Num b) = (a < b)"
| "js_lt _ _ = False"

definition js_gt :: "jsnum \<Rightarrow> jsnum \<Rightarrow> bool" where
  "js_gt a b = js_lt b a"

fun js_le :: "jsnum \<Rightarrow> jsnum \<Rightarrow> bool" where
  "js_le (Num a) (Num b) = (a \<le> b)"
| "js_le _ _ = False"

definition js_ge :: "jsnum \<Rightarrow> jsnum \<Rightarrow> bool" where
  "js_ge a b = js_le b a"

text \<open>Arithmetic propagates \<open>NaN\<close>. A quotient by zero is not finite; it is \<open>NaN\<close> here.\<close>

fun js_add :: "jsnum \<Rightarrow> jsnum \<Rightarrow> jsnum" where
  "js_add (Num a) (Num b) = Num (a + b)"
| "js_add _ _ = NaN"

fun js_mul :: "jsnum \<Rightarrow> jsnum \<Rightarrow> jsnum" where
  "js_mul (Num a) (Num b) = Num (a * b)"
| "js_mul _ _ = NaN"

fun js_div :: "jsnum \<Rightarrow> jsnum \<Rightarrow> jsnum" where
  "js_div (Num a) (Num b) = (if b = 0 then NaN else Num (a / b))"
| "js_div _ _ = NaN"

fun math_floor :: "jsnum \<Rightarrow> jsnum" where
  "math_floor (Num a) = Num (of_int \<lfloor>a\<rfloor>)"
| "math_floor NaN = NaN"

fun math_max :: "jsnum \<Rightarrow> jsnum \<Rightarrow> jsnum" where
  "math_max (Num a) (Num b) = Num (max a b)"
| "math_max _ _ = NaN"

fun math_min :: "jsnum \<Rightarrow> jsnum \<Rightarrow> jsnum" where
  "math_min (Num a) (Num b) = Num (min a b)"
| "math_min _ _ = NaN"

text \<open>A number is falsy when it is zero or \<open>NaN\<close>; \<^verbatim>\<open>x || d\<close> is \<open>d\<close> for a falsy \<open>x\<close>.\<close>

fun truthy :: "jsnum \<Rightarrow> bool" where
  "truthy NaN = False"
| "truthy (Num a) = (a \<noteq> 0)"

definition js_or :: "jsnum \<Rightarrow> jsnum \<Rightarrow> jsnum" where
  "js_or x d = (if truthy x then x else d)"

section \<open>Timing resolver\<close>

record timing_point =
  tp_time :: jsnum
  tp_beatLength :: jsnum
  tp_uninherited :: bool

record timing =
  t_beatLength :: jsnum
  t_sv :: jsnum

text \<open>
  \<^verbatim>\<open>getTiming\<close> of the renderer (inside \<^verbatim>\<open>parseHitObjects\<close>): the \<^verbatim>\<open>for ... of\<close> loop
  with its \<^verbatim>\<open>break\<close>, carrying \<^verbatim>\<open>activeBPM\<close> and \<^verbatim>\<open>activeSV\<close>.
\<close>

fun getTiming_loop :: "jsnum \<Rightarrow> timing_point list \<Rightarrow> jsnum \<Rightarrow> jsnum \<Rightarrow> timing" where
  "getTiming_loop time [] activeBPM activeSV =
     \<lparr> t_beatLength = activeBPM, t_sv = activeSV \<rparr>"
| "getTiming_loop time (tp # tps) activeBPM activeSV =
     (if js_gt (tp_time tp) time then \<lparr> t_beatLength = activeBPM, t_sv = activeSV \<rparr>
      else if tp_uninherited tp then getTiming_loop time tps (tp_beatLength tp) (Num 1)
      else if js_lt (tp_beatLength tp) (Num 0)
        then getTiming_loop time tps activeBPM (js_div (Num (- 100)) (tp_beatLength tp))
      else getTiming_loop time tps activeBPM activeSV)"

definition getTiming :: "timing_point list \<Rightarrow> jsnum \<Rightarrow> timing" where
  "getTiming timingPoints time = getTiming_loop time timingPoints (Num (60000 / 120)) (Num 1)"

text \<open>
  \<^verbatim>\<open>getTimingInfo\<close> of the scanner worker: the same loop, with an \<^verbatim>\<open>else\<close> branch that
  sets \<^verbatim>\<open>activeSV = 1.0\<close> for an inherited point whose beat length is not negative.
\<close>

fun getTimingInfo_loop :: "jsnum \<Rightarrow> timing_point list \<Rightarrow> jsnum \<Rightarrow> jsnum \<Rightarrow> timing" where
  "getTimingInfo_loop time [] activeBPM activeSV =
     \<lparr> t_beatLength = activeBPM, t_sv = activeSV \<rparr>"
| "getTimingInfo_loop time (tp # tps) activeBPM activeSV =
     (if js_gt (tp_time tp) time then \<lparr> t_beatLength = activeBPM, t_sv = activeSV \<rparr>
      else if tp_uninherited tp then getTimingInfo_loop time tps (tp_beatLength tp) (Num 1)
      else if js_lt (tp_beatLength tp) (Num 0)
        then getTimingInfo_loop time tps activeBPM (js_div (Num (- 100)) (tp_beatLength tp))
      else getTimingInfo_loop time tps activeBPM (Num 1))"

definition getTimingInfo :: "jsnum \<Rightarrow> timing_point list \<Rightarrow> timing" where
  "getTimingInfo time timingPoints =
     getTimingInfo_loop time timingPoints (Num (60000 / 120)) (Num 1)"

subsection \<open>The resolver as the specification words it\<close>

text \<open>
  The points the scan passes are those before the first one whose time exceeds the
  query time. Each passed point acts on the running pair: an uninherited point sets the
  beat length to its own and the scroll velocity to 1; an inherited point with a
  negative beat length sets the scroll velocity to \<open>-100 / beatLength\<close>; any other
  inherited point changes nothing.
\<close>

definition passed_points :: "jsnum \<Rightarrow> timing_point list \<Rightarrow> timing_point list" where
  "passed_points time tps = takeWhile (\<lambda>tp. \<not> js_gt (tp_time tp) time) tps"

definition spec_step :: "timing \<Rightarrow> timing_point \<Rightarrow> timing" where
  "spec_step t tp =
     (if tp_uninherited tp then \<lparr> t_beatLength = tp_beatLength tp, t_sv = Num 1 \<rparr>
      else if js_lt (tp_beatLength tp) (Num 0)
        then t\<lparr> t_sv := js_div (Num (- 100)) (tp_beatLength tp) \<rparr>
      else t)"

definition spec_resolve :: "jsnum \<Rightarrow> timing_point list \<Rightarrow> timing" where
  "spec_resolve time tps =
     foldl spec_step \<lparr> t_beatLength = Num 500, t_sv = Num 1 \<rparr> (passed_points time tps)"

text \<open>The worker's step: as above, but any other inherited point resets the scroll velocity.\<close>

definition worker_step :: "timing \<Rightarrow> timing_point \<Rightarrow> timing" where
  "worker_step t tp =
     (if tp_uninherited tp then \<lparr> t_beatLength = tp_beatLength tp, t_sv = Num 1 \<rparr>
      else if js_lt (tp_beatLength tp) (Num 0)
        then t\<lparr> t_sv := js_div (Num (- 100)) (tp_beatLength tp) \<rparr>
      else t\<lparr> t_sv := Num 1 \<rparr>)"

lemma getTiming_loop_fold:
  "getTiming_loop time tps bpm sv =
     foldl spec_step \<lparr> t_beatLength = bpm, t_sv = sv \<rparr> (passed_points time tps)"
  by (induction tps arbitrary: bpm sv) (simp_all add: passed_points_def spec_step_def)

lemma getTimingInfo_loop_fold:
  "getTimingInfo_loop time tps bpm sv =
     foldl worker_step \<lparr> t_beatLength = bpm, t_sv = sv \<rparr> (passed_points time tps)"
  by (induction tps arbitrary: bpm sv) (simp_all add: passed_points_def worker_step_def)

text \<open>
  Both resolvers are folds over the passed points, from beat length 500 and scroll
  velocity 1: \<^verbatim>\<open>getTiming\<close> with the step of the stated rule, \<^verbatim>\<open>getTimingInfo\<close> with the
  worker's step.
\<close>

lemma resolvers_as_folds:
  "getTiming tps time = spec_resolve time tps \<and>
   getTimingInfo time tps =
     foldl worker_step \<lparr> t_beatLength = Num 500, t_sv = Num 1 \<rparr> (passed_points time tps)"
  by (simp add: getTiming_def getTimingInfo_def spec_resolve_def
      getTiming_loop_fold getTimingInfo_loop_fold)

text \<open>
  Claim C1 is the rule of the renderer's \<^verbatim>\<open>getTiming\<close>, and the worker's
  \<^verbatim>\<open>getTimingInfo\<close> breaks it. The points are an uninherited one at 0, an inherited one
  of beat length \<open>-50\<close> at 1000 (scroll velocity 2) and an inherited one of beat length
  100 at 2000, which by the rule changes nothing. At the time 3000 \<^verbatim>\<open>getTimingInfo\<close>
  answers the scroll velocity 1: its \<^verbatim>\<open>else\<close> branch \<^verbatim>\<open>activeSV = 1.0\<close> resets what the
  rule keeps. \<^verbatim>\<open>getTiming\<close>, which has no such branch, and the rule as stated answer 2.
\<close>

theorem getTimingInfo_inherited_counterexample:
  "t_sv (getTimingInfo (Num 3000)
     [\<lparr> tp_time = Num 0, tp_beatLength = Num 500, tp_uninherited = True \<rparr>,
      \<lparr> tp_time = Num 1000, tp_beatLength = Num (- 50), tp_uninherited = False \<rparr>,
      \<lparr> tp_time = Num 2000, tp_beatLength = Num 100, tp_uninherited = False \<rparr>]) = Num 1 \<and>
   t_sv (getTiming
     [\<lparr> tp_time = Num 0, tp_beatLength = Num 500, tp_uninherited = True \<rparr>,
      \<lparr> tp_time = Num 1000, tp_beatLength = Num (- 50), tp_uninherited = False \<rparr>,
      \<lparr> tp_time = Num 2000, tp_beatLength = Num 100, tp_uninherited = False \<rparr>]
     (Num 3000)) = Num 2 \<and>
   t_sv (spec_resolve (Num 3000)
     [\<lparr> tp_time = Num 0, tp_beatLength = Num 500, tp_uninherited = True \<rparr>,
      \<lparr> tp_time = Num 1000, tp_beatLength = Num (- 50), tp_uninherited = False \<rparr>,
      \<lparr> tp_time = Num 2000, tp_beatLength = Num 100, tp_uninherited = False \<rparr>]) = Num 2"
  by (simp add: getTimingInfo_def getTiming_def spec_resolve_def passed_points_def
      spec_step_def js_gt_def)

section \<open>Highlight range builders\<close>

text \<open>
  \<^verbatim>\<open>flags[j] = true\<close> on an array of fixed length that is later read at the indices
  below its length only: a write at an integer index inside the array sets the flag,
  any other write (beyond the end, negative, fractional, \<open>NaN\<close>) leaves those reads as
  they were.
\<close>

fun set_flag :: "bool list \<Rightarrow> jsnum \<Rightarrow> bool list" where
  "set_flag flags NaN = flags"
| "set_flag flags (Num a) =
     (if a = of_int \<lfloor>a\<rfloor> \<and> 0 \<le> a \<and> a < of_nat (length flags)
      then flags[nat \<lfloor>a\<rfloor> := True] else flags)"

text \<open>\<^verbatim>\<open>for (let j = startIdx; j <= endIdx; j++) flags[j] = true\<close>\<close>

function mark_bins :: "bool list \<Rightarrow> jsnum \<Rightarrow> jsnum \<Rightarrow> bool list" where
  "mark_bins flags j endIdx =
     (if js_le j endIdx then mark_bins (set_flag flags j) (js_add j (Num 1)) endIdx
      else flags)"
  by pat_completeness auto
termination
proof (relation "measure (\<lambda>(flags, j, endIdx).
    case (j, endIdx) of (Num a, Num b) \<Rightarrow> nat (\<lfloor>b - a\<rfloor> + 1) | _ \<Rightarrow> 0)")
  show "wf (measure (\<lambda>(flags, j, endIdx).
    case (j, endIdx) of (Num a, Num b) \<Rightarrow> nat (\<lfloor>b - a\<rfloor> + 1) | _ \<Rightarrow> 0))"
    by simp
next
  fix flags :: "bool list" and j endIdx :: jsnum
  assume le: "js_le j endIdx"
  then obtain a b where ab: "j = Num a" "endIdx = Num b" "a \<le> b"
    by (cases j; cases endIdx) simp_all
  have "\<lfloor>b - (a + 1)\<rfloor> = \<lfloor>b - a\<rfloor> - 1"
    by (simp add: algebra_simps) linarith
  moreover have "0 \<le> \<lfloor>b - a\<rfloor>" using ab by simp
  ultimately show "((set_flag flags j, js_add j (Num 1), endIdx), flags, j, endIdx)
      \<in> measure (\<lambda>(flags, j, endIdx).
        case (j, endIdx) of (Num a, Num b) \<Rightarrow> nat (\<lfloor>b - a\<rfloor> + 1) | _ \<Rightarrow> 0)"
    using ab by simp
qed

declare mark_bins.simps [simp del]

text \<open>
  One iteration of the first loop of \<^verbatim>\<open>buildHighlightRanges\<close>, for the interval
  \<open>(start, end)\<close>; \<open>maxTime\<close> is \<^verbatim>\<open>durationMs\<close> and \<open>bins\<close> is 120.
\<close>

definition mark_interval :: "jsnum \<Rightarrow> bool list \<Rightarrow> jsnum \<times> jsnum \<Rightarrow> bool list" where
  "mark_interval maxTime flags se =
     (let start = fst se; end' = snd se; bins = Num 120 in
      if js_lt start (Num 0) \<or> js_gt start maxTime then flags
      else
        let startIdx = math_min (Num 119) (math_floor (js_mul (js_div start maxTime) bins));
            endIdx = math_min (Num 119)
                       (math_floor (js_mul (js_div (math_max start end') maxTime) bins))
        in mark_bins flags startIdx endIdx)"

text \<open>
  The interval of index \<open>i\<close>: \<^verbatim>\<open>ends[i]\<close> when \<^verbatim>\<open>ends\<close> is long enough, the start
  otherwise.
\<close>

definition intervals :: "jsnum list \<Rightarrow> jsnum list \<Rightarrow> (jsnum \<times> jsnum) list" where
  "intervals starts ends =
     map (\<lambda>i. (starts ! i, if length ends > i then ends ! i else starts ! i))
       [0 ..< length starts]"

text \<open>
  The second loop: run-length encoding of the flags. \<open>start\<close> is \<open>None\<close> for the
  \<^verbatim>\<open>null\<close> of the source; \<^verbatim>\<open>push\<close> appends.
\<close>

function encode_runs :: "nat \<Rightarrow> bool list \<Rightarrow> nat \<Rightarrow> nat option \<Rightarrow> highlight list \<Rightarrow> highlight list" where
  "encode_runs bins flags i start ranges =
     (if i < bins then
        (if flags ! i then
           (if start = None then encode_runs bins flags (i + 1) (Some i) ranges
            else encode_runs bins flags (i + 1) start ranges)
         else
           (case start of
              Some s \<Rightarrow> encode_runs bins flags (i + 1) None
                 (ranges @ [\<lparr> r_start = of_nat s / of_nat bins, r_end = of_nat i / of_nat bins,
                             r_type = Some ''object'' \<rparr>])
            | None \<Rightarrow> encode_runs bins flags (i + 1) start ranges))
      else
        (case start of
           Some s \<Rightarrow> ranges @ [\<lparr> r_start = of_nat s / of_nat bins, r_end = 1,
                                r_type = Some ''object'' \<rparr>]
         | None \<Rightarrow> ranges))"
  by pat_completeness auto
termination
  by (relation "measure (\<lambda>(bins, flags, i, start, ranges). bins - i)") auto

declare encode_runs.simps [simp del]

definition buildHighlightRanges :: "jsnum list \<Rightarrow> jsnum list \<Rightarrow> jsnum \<Rightarrow> highlight list" where
  "buildHighlightRanges starts ends durationMs =
     (if starts = [] \<or> \<not> truthy durationMs then []
      else
        let flags = foldl (mark_interval durationMs) (replicate 120 False) (intervals starts ends)
        in encode_runs 120 flags 0 None [])"

text \<open>
  Break periods and bookmarks hold integers: both parsers store a break or a bookmark
  only when its numbers have parsed.
\<close>

record break_period =
  b_start :: int
  b_end :: int

definition buildBreakRanges :: "break_period list \<Rightarrow> jsnum \<Rightarrow> highlight list" where
  "buildBreakRanges breaks durationMs =
     (if breaks = [] \<or> \<not> truthy durationMs then []
      else case durationMs of
        NaN \<Rightarrow> []
      | Num d \<Rightarrow>
          filter (\<lambda>r. r_end r > r_start r)
            (map (\<lambda>b. \<lparr> r_start = min (max (of_int (b_start b) / d) 0) 1,
                         r_end = min (max (of_int (b_end b) / d) 0) 1,
                         r_type = Some ''break'' \<rparr>) breaks))"

text \<open>The \<^verbatim>\<open>forEach\<close> of \<^verbatim>\<open>buildBookmarkRanges\<close>, for one bookmark; \<open>bins\<close> is 200.\<close>

definition mark_bookmark :: "rat \<Rightarrow> bool list \<Rightarrow> int \<Rightarrow> bool list" where
  "mark_bookmark d flags time =
     (let idx = min 199 \<lfloor>(of_int time / d) * 200\<rfloor> in
      if idx \<ge> 0 then flags[nat idx := True] else flags)"

function emit_bookmarks :: "nat \<Rightarrow> bool list \<Rightarrow> nat \<Rightarrow> highlight list \<Rightarrow> highlight list" where
  "emit_bookmarks bins flags i ranges =
     (if i < bins then
        (if flags ! i then
           emit_bookmarks bins flags (i + 1)
             (ranges @ [\<lparr> r_start = of_nat i / of_nat bins,
                         r_end = (of_nat i + 12 / 10) / of_nat bins,
                         r_type = Some ''bookmark'' \<rparr>])
         else emit_bookmarks bins flags (i + 1) ranges)
      else ranges)"
  by pat_completeness auto
termination
  by (relation "measure (\<lambda>(bins, flags, i, ranges). bins - i)") auto

declare emit_bookmarks.simps [simp del]

definition buildBookmarkRanges :: "int list \<Rightarrow> jsnum \<Rightarrow> highlight list" where
  "buildBookmarkRanges bookmarks durationMs =
     (if bookmarks = [] \<or> \<not> truthy durationMs then []
      else case durationMs of
        NaN \<Rightarrow> []
      | Num d \<Rightarrow>
          emit_bookmarks 200 (foldl (mark_bookmark d) (replicate 200 False) bookmarks) 0 [])"

text \<open>The invariant of the specification: \<open>0 \<le> start < end \<le> 1\<close>.\<close>

definition unit_range :: "highlight \<Rightarrow> bool" where
  "unit_range r = (0 \<le> r_start r \<and> r_start r < r_end r \<and> r_end r \<le> 1)"

subsection \<open>Bounds of the produced ranges\<close>

lemma encode_runs_unit:
  assumes "\<forall>r \<in> set ranges. unit_range r" and "i \<le> bins"
    and "\<forall>s. start = Some s \<longrightarrow> s < i"
  shows "\<forall>r \<in> set (encode_runs bins flags i start ranges). unit_range r"
  using assms
proof (induction bins flags i start ranges rule: encode_runs.induct)
  case (1 bins flags i start ranges)
  note step = encode_runs.simps [of bins flags i start ranges]
  show ?case
  proof (cases "i < bins")
    case False
    with "1.prems" have ib: "i = bins" by simp
    show ?thesis
    proof (cases start)
      case None
      with False "1.prems" show ?thesis unfolding step by simp
    next
      case (Some s)
      with "1.prems" ib have "s < bins" by simp
      then have "unit_range \<lparr> r_start = of_nat s / of_nat bins, r_end = 1,
                                r_type = Some ''object'' \<rparr>"
        by (simp add: unit_range_def)
      with Some False "1.prems" show ?thesis unfolding step by simp
    qed
  next
    case True
    note lt = True
    show ?thesis
    proof (cases "flags ! i")
      case True
      show ?thesis
      proof (cases start)
        case None
        have "\<forall>r \<in> set (encode_runs bins flags (i + 1) (Some i) ranges). unit_range r"
        proof (rule "1.IH"(1) [OF lt True None])
          show "\<forall>r \<in> set ranges. unit_range r" by (rule "1.prems"(1))
          show "i + 1 \<le> bins" using lt by simp
          show "\<forall>s. Some i = Some s \<longrightarrow> s < i + 1" by simp
        qed
        with lt True None show ?thesis unfolding step by simp
      next
        case (Some s)
        have "start \<noteq> None" using Some by simp
        then have "\<forall>r \<in> set (encode_runs bins flags (i + 1) start ranges). unit_range r"
        proof (rule "1.IH"(2) [OF lt True])
          show "\<forall>r \<in> set ranges. unit_range r" by (rule "1.prems"(1))
          show "i + 1 \<le> bins" using lt by simp
          show "\<forall>s. start = Some s \<longrightarrow> s < i + 1" using "1.prems"(3) by auto
        qed
        with lt True Some show ?thesis unfolding step by simp
      qed
    next
      case False
      show ?thesis
      proof (cases start)
        case None
        have "\<forall>r \<in> set (encode_runs bins flags (i + 1) start ranges). unit_range r"
        proof (rule "1.IH"(3) [OF lt False None])
          show "\<forall>r \<in> set ranges. unit_range r" by (rule "1.prems"(1))
          show "i + 1 \<le> bins" using lt by simp
          show "\<forall>s. start = Some s \<longrightarrow> s < i + 1" using None by simp
        qed
        with lt False None show ?thesis unfolding step by simp
      next
        case (Some s)
        let ?r = "\<lparr> r_start = of_nat s / of_nat bins, r_end = of_nat i / of_nat bins,
                     r_type = Some ''object'' \<rparr>"
        have si: "s < i" using Some "1.prems" by simp
        have "unit_range ?r"
          using si lt by (simp add: unit_range_def divide_strict_right_mono)
        then have all: "\<forall>r \<in> set (ranges @ [?r]). unit_range r"
          using "1.prems"(1) by simp
        have "\<forall>r \<in> set (encode_runs bins flags (i + 1) None (ranges @ [?r])). unit_range r"
        proof (rule "1.IH"(4) [OF lt False Some])
          show "\<forall>r \<in> set (ranges @ [?r]). unit_range r" by (rule all)
          show "i + 1 \<le> bins" using lt by simp
          show "\<forall>s. None = Some s \<longrightarrow> s < i + 1" by simp
        qed
        with lt False Some show ?thesis unfolding step by simp
      qed
    qed
  qed
qed


lemma buildHighlightRanges_unit:
  "\<forall>r \<in> set (buildHighlightRanges starts ends durationMs). unit_range r"
proof (cases "starts = [] \<or> \<not> truthy durationMs")
  case True
  then show ?thesis by (auto simp: buildHighlightRanges_def)
next
  case False
  have "\<forall>r \<in> set (encode_runs 120
      (foldl (mark_interval durationMs) (replicate 120 False) (intervals starts ends))
      0 None []). unit_range r"
    by (rule encode_runs_unit) simp_all
  with False show ?thesis by (simp add: buildHighlightRanges_def)
qed

lemma buildBreakRanges_unit:
  "\<forall>r \<in> set (buildBreakRanges breaks durationMs). unit_range r"
  by (cases durationMs) (auto simp: buildBreakRanges_def unit_range_def)

text \<open>What holds of a bookmark range instead.\<close>

definition bookmark_range :: "highlight \<Rightarrow> bool" where
  "bookmark_range r =
     (0 \<le> r_start r \<and> r_start r < r_end r \<and> r_end r \<le> 1001 / 1000 \<and>
      (r_end r \<le> 1 \<or> r_start r = 199 / 200))"

lemma bookmark_range_bin:
  assumes "i < 200"
  shows "bookmark_range \<lparr> r_start = of_nat i / of_nat 200,
           r_end = (of_nat i + 12 / 10) / of_nat 200, r_type = Some ''bookmark'' \<rparr>"
proof (cases "i = 199")
  case True
  then show ?thesis by (simp add: bookmark_range_def)
next
  case False
  with assms have "i \<le> 198" by simp
  then have "(of_nat i :: rat) \<le> 198" by (metis of_nat_le_iff of_nat_numeral)
  then show ?thesis by (simp add: bookmark_range_def)
qed

lemma emit_bookmarks_range:
  assumes "\<forall>r \<in> set ranges. bookmark_range r"
  shows "\<forall>r \<in> set (emit_bookmarks 200 flags i ranges). bookmark_range r"
  using assms
proof (induction "200::nat" flags i ranges rule: emit_bookmarks.induct)
  case (1 flags i ranges)
  note step = emit_bookmarks.simps [of 200 flags i ranges]
  show ?case
  proof (cases "i < 200")
    case False
    with "1.prems" show ?thesis unfolding step by simp
  next
    case True
    note lt = True
    show ?thesis
    proof (cases "flags ! i")
      case True
      let ?r = "\<lparr> r_start = of_nat i / of_nat 200,
           r_end = (of_nat i + 12 / 10) / of_nat 200, r_type = Some ''bookmark'' \<rparr>"
      have "\<forall>r \<in> set (ranges @ [?r]). bookmark_range r"
        using "1.prems" bookmark_range_bin [OF lt] by simp
      from "1.hyps"(1) [OF lt True this] lt True show ?thesis
        unfolding step by simp
    next
      case False
      from "1.hyps"(2) [OF lt False "1.prems"] lt False show ?thesis
        unfolding step by simp
    qed
  qed
qed

lemma buildBookmarkRanges_range:
  "\<forall>r \<in> set (buildBookmarkRanges bookmarks durationMs). bookmark_range r"
proof (cases durationMs)
  case NaN
  then show ?thesis by (simp add: buildBookmarkRanges_def)
next
  case (Num d)
  have "\<forall>r \<in> set (emit_bookmarks 200
      (foldl (mark_bookmark d) (replicate 200 False) bookmarks) 0 []). bookmark_range r"
    by (rule emit_bookmarks_range) simp
  with Num show ?thesis by (simp add: buildBookmarkRanges_def)
qed

text \<open>
  Claim C2, as the code has it. For every list of intervals, break periods and
  bookmarks and every duration, each range of \<^verbatim>\<open>buildHighlightRanges\<close> and of
  \<^verbatim>\<open>buildBreakRanges\<close> satisfies \<open>0 \<le> start < end \<le> 1\<close>. Each range of
  \<^verbatim>\<open>buildBookmarkRanges\<close> satisfies \<open>0 \<le> start < end \<le> 1.001\<close>, and its end is at most
  1 unless it is the range of the last bin (start \<open>199/200\<close>), which the widening by 1.2
  bins carries to \<open>200.2/200\<close>.
\<close>

theorem highlight_ranges_bounds:
  "(\<forall>r \<in> set (buildHighlightRanges starts ends durationMs).
       0 \<le> r_start r \<and> r_start r < r_end r \<and> r_end r \<le> 1) \<and>
   (\<forall>r \<in> set (buildBreakRanges breaks durationMs).
       0 \<le> r_start r \<and> r_start r < r_end r \<and> r_end r \<le> 1) \<and>
   (\<forall>r \<in> set (buildBookmarkRanges bookmarks durationMs).
       0 \<le> r_start r \<and> r_start r < r_end r \<and> r_end r \<le> 1001 / 1000 \<and>
       (r_end r \<le> 1 \<or> r_start r = 199 / 200))"
  using buildHighlightRanges_unit [of starts ends durationMs]
    buildBreakRanges_unit [of breaks durationMs]
    buildBookmarkRanges_range [of bookmarks durationMs]
  unfolding unit_range_def bookmark_range_def by blast

text \<open>
  The bound \<open>end \<le> 1\<close> fails for a bookmark in the last bin: a bookmark at the very end
  of a track of 1000 ms gives the range from \<open>199/200\<close> to \<open>1.001\<close>.
\<close>

theorem bookmark_range_counterexample:
  "buildBookmarkRanges [1000] (Num 1000) =
     [\<lparr> r_start = 199 / 200, r_end = 1001 / 1000, r_type = Some ''bookmark'' \<rparr>] \<and>
   \<not> ((1001 / 1000 :: rat) \<le> 1)"
proof -
  have "buildBookmarkRanges [1000] (Num 1000) =
     [\<lparr> r_start = 199 / 200, r_end = 1001 / 1000, r_type = Some ''bookmark'' \<rparr>]"
    by code_simp
  then show ?thesis by simp
qed

theorem highlight_ranges_bounds_witness:
  "buildHighlightRanges [Num 0, Num 100, Num 5000] [Num 500, Num 100, Num 5000] (Num 10000) =
     [\<lparr> r_start = 0, r_end = 7 / 120, r_type = Some ''object'' \<rparr>,
      \<lparr> r_start = 1 / 2, r_end = 61 / 120, r_type = Some ''object'' \<rparr>] \<and>
   (0 :: rat) \<le> 1 / 2 \<and> (1 / 2 :: rat) < 61 / 120 \<and> (61 / 120 :: rat) \<le> 1"
proof -
  let ?r = "\<lparr> r_start = 1 / 2, r_end = 61 / 120, r_type = Some ''object'' \<rparr>"
  have e: "buildHighlightRanges [Num 0, Num 100, Num 5000] [Num 500, Num 100, Num 5000]
      (Num 10000) =
     [\<lparr> r_start = 0, r_end = 7 / 120, r_type = Some ''object'' \<rparr>, ?r]"
    by code_simp
  then have "?r \<in> set (buildHighlightRanges [Num 0, Num 100, Num 5000]
      [Num 500, Num 100, Num 5000] (Num 10000))"
    by simp
  with highlight_ranges_bounds
    [of "[Num 0, Num 100, Num 5000]" "[Num 500, Num 100, Num 5000]" "Num 10000" "[]" "[]"]
  have "0 \<le> r_start ?r \<and> r_start ?r < r_end ?r \<and> r_end ?r \<le> 1"
    by blast
  with e show ?thesis by simp
qed

section \<open>JavaScript strings\<close>

text \<open>
  A JavaScript string is a sequence of UTF-16 code units; a code unit is modelled as an
  integer (the byte order mark is the single unit \<open>0xFEFF\<close>). \<open>str\<close> turns an
  ASCII literal of the source into such a sequence.
\<close>

type_synonym jsstring = "int list"

definition str :: "string \<Rightarrow> jsstring" where
  "str s = map of_char s"

text \<open>
  The white space that \<^verbatim>\<open>trim\<close>, \<^verbatim>\<open>parseInt\<close> and \<^verbatim>\<open>parseFloat\<close> strip: the
  \<^verbatim>\<open>WhiteSpace\<close> and \<^verbatim>\<open>LineTerminator\<close> code units of ECMAScript.
\<close>

definition is_space :: "int \<Rightarrow> bool" where
  "is_space c = (c = 9 \<or> c = 10 \<or> c = 11 \<or> c = 12 \<or> c = 13 \<or> c = 32 \<or> c = 160 \<or>
     c = 5760 \<or> (8192 \<le> c \<and> c \<le> 8202) \<or> c = 8232 \<or> c = 8233 \<or> c = 8239 \<or>
     c = 8287 \<or> c = 12288 \<or> c = 65279)"

definition js_trim :: "jsstring \<Rightarrow> jsstring" where
  "js_trim s = rev (dropWhile is_space (rev (dropWhile is_space s)))"

definition startsWith :: "jsstring \<Rightarrow> jsstring \<Rightarrow> bool" where
  "startsWith s p = (take (length p) s = p)"

definition endsWith :: "jsstring \<Rightarrow> jsstring \<Rightarrow> bool" where
  "endsWith s p = (length p \<le> length s \<and> drop (length s - length p) s = p)"

text \<open>
  \<^verbatim>\<open>toLowerCase\<close>. The results are only ever compared with ASCII literals. The code
  units that lower-case into ASCII are the capital letters, the Kelvin sign (to \<open>k\<close>) and
  the dotted capital I (to \<open>i\<close> followed by a combining dot); every other unit is left as
  it is, which never yields an ASCII letter either.
\<close>

definition lower_units :: "int \<Rightarrow> jsstring" where
  "lower_units c =
     (if 65 \<le> c \<and> c \<le> 90 then [c + 32]
      else if c = 8490 then [107]
      else if c = 304 then [105, 775]
      else [c])"

definition toLowerCase :: "jsstring \<Rightarrow> jsstring" where
  "toLowerCase s = concat (map lower_units s)"

text \<open>
  \<^verbatim>\<open>s.split(sep)\<close> for a separator of one code unit: never empty, \<^verbatim>\<open>''.split(',')\<close>
  is the array of the empty string.
\<close>

fun cons_first :: "int \<Rightarrow> jsstring list \<Rightarrow> jsstring list" where
  "cons_first c [] = [[c]]"
| "cons_first c (l # ls) = (c # l) # ls"

fun split_on :: "int \<Rightarrow> jsstring \<Rightarrow> jsstring list" where
  "split_on sep [] = [[]]"
| "split_on sep (c # cs) =
     (if c = sep then [] # split_on sep cs else cons_first c (split_on sep cs))"

text \<open>
  \<^verbatim>\<open>content.split(/\r?\n/)\<close>: a line feed ends a line, and takes a carriage return
  right before it along; a carriage return elsewhere stays in its line.
\<close>

fun split_lines :: "jsstring \<Rightarrow> jsstring list" where
  "split_lines [] = [[]]"
| "split_lines [c] = (if c = 10 then [[], []] else [[c]])"
| "split_lines (c # d # cs) =
     (if c = 10 then [] # split_lines (d # cs)
      else if c = 13 \<and> d = 10 then [] # split_lines cs
      else cons_first c (split_lines (d # cs)))"

subsection \<open>Parsing numbers\<close>

definition is_digit :: "int \<Rightarrow> bool" where
  "is_digit c = (48 \<le> c \<and> c \<le> 57)"

definition digits_value :: "jsstring \<Rightarrow> int" where
  "digits_value ds = foldl (\<lambda>a c. a * 10 + (c - 48)) 0 ds"

definition is_hex_digit :: "int \<Rightarrow> bool" where
  "is_hex_digit c = (is_digit c \<or> (97 \<le> c \<and> c \<le> 102) \<or> (65 \<le> c \<and> c \<le> 70))"

definition hex_digit_value :: "int \<Rightarrow> int" where
  "hex_digit_value c = (if is_digit c then c - 48 else if 97 \<le> c then c - 87 else c - 55)"

definition hex_value :: "jsstring \<Rightarrow> int" where
  "hex_value ds = foldl (\<lambda>a c. a * 16 + hex_digit_value c) 0 ds"

text \<open>The sign that \<^verbatim>\<open>parseInt\<close> and \<^verbatim>\<open>parseFloat\<close> read off, and the rest.\<close>

fun read_sign :: "jsstring \<Rightarrow> rat \<times> jsstring" where
  "read_sign [] = (1, [])"
| "read_sign (c # cs) =
     (if c = 45 then (- 1, cs) else if c = 43 then (1, cs) else (1, c # cs))"

text \<open>\<^verbatim>\<open>Number.parseInt(s, 10)\<close>\<close>

definition parseInt10 :: "jsstring \<Rightarrow> jsnum" where
  "parseInt10 s =
     (let (sign, S) = read_sign (dropWhile is_space s);
          Z = takeWhile is_digit S
      in if Z = [] then NaN else Num (sign * of_int (digits_value Z)))"

text \<open>
  \<^verbatim>\<open>parseInt(s)\<close> with no radix: as above, but the prefix \<^verbatim>\<open>0x\<close> or \<^verbatim>\<open>0X\<close> is
  stripped and switches to radix 16.
\<close>

definition parseInt :: "jsstring \<Rightarrow> jsnum" where
  "parseInt s =
     (let (sign, S) = read_sign (dropWhile is_space s) in
      if startsWith S [48, 120] \<or> startsWith S [48, 88] then
        (let Z = takeWhile is_hex_digit (drop 2 S)
         in if Z = [] then NaN else Num (sign * of_int (hex_value Z)))
      else
        (let Z = takeWhile is_digit S
         in if Z = [] then NaN else Num (sign * of_int (digits_value Z))))"

text \<open>
  \<^verbatim>\<open>parseFloat(s)\<close>: the longest prefix that is a \<^verbatim>\<open>StrDecimalLiteral\<close>, that is
  digits with an optional fraction, or a fraction alone, and an exponent when one
  follows completely. The value is the exact decimal. The literal \<^verbatim>\<open>Infinity\<close>, which
  JavaScript reads as an infinity, has no value in this model of numbers and is read
  as \<open>NaN\<close>.
\<close>

definition read_exponent :: "jsstring \<Rightarrow> int" where
  "read_exponent r =
     (case r of
        [] \<Rightarrow> 0
      | c # cs \<Rightarrow>
          if c = 101 \<or> c = 69 then
            (let (sign, ds) = read_sign cs; E = takeWhile is_digit ds
             in if E = [] then 0
                else if sign < 0 then - digits_value E else digits_value E)
          else 0)"

definition pow10 :: "int \<Rightarrow> rat" where
  "pow10 e = (if e < 0 then 1 / 10 ^ nat (- e) else 10 ^ nat e)"

definition parseFloat :: "jsstring \<Rightarrow> jsnum" where
  "parseFloat s =
     (let (sign, S) = read_sign (dropWhile is_space s);
          I = takeWhile is_digit S;
          r1 = dropWhile is_digit S;
          hasDot = (r1 \<noteq> [] \<and> hd r1 = 46);
          F = (if hasDot then takeWhile is_digit (tl r1) else []);
          r2 = (if hasDot then dropWhile is_digit (tl r1) else r1)
      in if I = [] \<and> F = [] then NaN
         else
           let mantissa = of_int (digits_value I) + of_int (digits_value F) / 10 ^ length F
           in Num (sign * mantissa * pow10 (read_exponent r2)))"

text \<open>
  \<^verbatim>\<open>ToInt32\<close> and \<^verbatim>\<open>ToInt16\<close>: what the bitwise operators and the typed arrays make of a
  number. \<open>NaN\<close> becomes 0; a finite number is truncated towards zero and wrapped.
\<close>

definition js_trunc :: "rat \<Rightarrow> int" where
  "js_trunc q = (if q < 0 then \<lceil>q\<rceil> else \<lfloor>q\<rfloor>)"

fun toInt32 :: "jsnum \<Rightarrow> int" where
  "toInt32 NaN = 0"
| "toInt32 (Num q) = (js_trunc q + 2147483648) mod 4294967296 - 2147483648"

fun toInt16 :: "jsnum \<Rightarrow> int" where
  "toInt16 NaN = 0"
| "toInt16 (Num q) = (js_trunc q + 32768) mod 65536 - 32768"

text \<open>\<^verbatim>\<open>x & mask\<close>, as a condition.\<close>

definition bit_and :: "jsnum \<Rightarrow> int \<Rightarrow> bool" where
  "bit_and x m = (and (toInt32 x) m \<noteq> 0)"

section \<open>The renderer's parsers\<close>

text \<open>
  The renderer parses a file with one function per result; each splits the content
  into lines and walks them with a flag or a section name. The loops are recursions
  over the list of lines, a \<^verbatim>\<open>return\<close> inside a loop ends the recursion.
\<close>

definition is_header :: "jsstring \<Rightarrow> bool" where
  "is_header trimmed = (startsWith trimmed (str ''['') \<and> endsWith trimmed (str '']''))"

subsection \<open>Background image\<close>

text \<open>\<^verbatim>\<open>trimmed.match(/"([^"]+)"/)\<close>: the first non-empty run between two quotes.\<close>

fun quoted_match :: "jsstring \<Rightarrow> jsstring option" where
  "quoted_match [] = None"
| "quoted_match (c # cs) =
     (if c = 34 \<and> takeWhile (\<lambda>d. d \<noteq> 34) cs \<noteq> [] \<and> dropWhile (\<lambda>d. d \<noteq> 34) cs \<noteq> []
      then Some (takeWhile (\<lambda>d. d \<noteq> 34) cs)
      else quoted_match cs)"

text \<open>\<^verbatim>\<open>s.replace(/^"|"$/g, '')\<close>: one quote off the front, then one off the end.\<close>

definition strip_quotes :: "jsstring \<Rightarrow> jsstring" where
  "strip_quotes s =
     (let s1 = (if s \<noteq> [] \<and> hd s = 34 then tl s else s)
      in if s1 \<noteq> [] \<and> last s1 = 34 then butlast s1 else s1)"

text \<open>
  \<^verbatim>\<open>/\.(jpe?g|png|gif|bmp)$/i.test(candidate)\<close>. Without the \<^verbatim>\<open>u\<close> flag, ignoring case
  identifies no code unit outside ASCII with an ASCII letter.
\<close>

definition ascii_lower :: "int \<Rightarrow> int" where
  "ascii_lower c = (if 65 \<le> c \<and> c \<le> 90 then c + 32 else c)"

definition image_regex_test :: "jsstring \<Rightarrow> bool" where
  "image_regex_test candidate =
     (let l = map ascii_lower candidate
      in endsWith l (str ''.jpg'') \<or> endsWith l (str ''.jpeg'') \<or> endsWith l (str ''.png'') \<or>
         endsWith l (str ''.gif'') \<or> endsWith l (str ''.bmp''))"

definition background_candidate :: "jsstring \<Rightarrow> jsstring" where
  "background_candidate trimmed =
     (case quoted_match trimmed of
        Some q \<Rightarrow> q
      | None \<Rightarrow>
          let parts = map js_trim (split_on 44 trimmed)
          in if length parts \<ge> 3 then strip_quotes (parts ! 2) else [])"

fun parseBackgroundFilename_loop :: "bool \<Rightarrow> jsstring list \<Rightarrow> jsstring" where
  "parseBackgroundFilename_loop inEvents [] = []"
| "parseBackgroundFilename_loop inEvents (line # lines) =
     (let trimmed = js_trim line in
      if trimmed = [] then parseBackgroundFilename_loop inEvents lines
      else if is_header trimmed
        then parseBackgroundFilename_loop (trimmed = str ''[Events]'') lines
      else if \<not> inEvents \<or> startsWith trimmed (str ''//'')
        then parseBackgroundFilename_loop inEvents lines
      else
        let candidate = background_candidate trimmed
        in if candidate \<noteq> [] \<and> image_regex_test candidate then candidate
           else parseBackgroundFilename_loop inEvents lines)"

definition parseBackgroundFilename :: "jsstring \<Rightarrow> jsstring" where
  "parseBackgroundFilename content = parseBackgroundFilename_loop False (split_lines content)"

subsection \<open>Break periods\<close>

text \<open>
  \<^verbatim>\<open>Number.isFinite\<close> of a parsed integer, and the integer itself once it is known to
  be one.
\<close>

fun isFinite :: "jsnum \<Rightarrow> bool" where
  "isFinite NaN = False"
| "isFinite (Num a) = True"

fun int_of :: "jsnum \<Rightarrow> int" where
  "int_of NaN = 0"
| "int_of (Num a) = \<lfloor>a\<rfloor>"

definition break_of_line :: "jsstring \<Rightarrow> break_period option" where
  "break_of_line trimmed =
     (let parts = map js_trim (split_on 44 trimmed) in
      if length parts < 3 then None
      else
        let typeToken = parts ! 0 in
        if typeToken \<noteq> str ''2'' \<and> toLowerCase typeToken \<noteq> str ''break'' then None
        else
          let startTime = parseInt10 (parts ! 1);
              endTime = parseInt10 (parts ! 2)
          in if isFinite startTime \<and> isFinite endTime \<and> js_gt endTime startTime
             then Some \<lparr> b_start = int_of startTime, b_end = int_of endTime \<rparr>
             else None)"

fun parseBreakPeriods_loop :: "bool \<Rightarrow> break_period list \<Rightarrow> jsstring list \<Rightarrow> break_period list" where
  "parseBreakPeriods_loop inEvents breaks [] = breaks"
| "parseBreakPeriods_loop inEvents breaks (line # lines) =
     (let trimmed = js_trim line in
      if trimmed = [] then parseBreakPeriods_loop inEvents breaks lines
      else if is_header trimmed
        then parseBreakPeriods_loop (trimmed = str ''[Events]'') breaks lines
      else if \<not> inEvents \<or> startsWith trimmed (str ''//'')
        then parseBreakPeriods_loop inEvents breaks lines
      else
        (case break_of_line trimmed of
           None \<Rightarrow> parseBreakPeriods_loop inEvents breaks lines
         | Some b \<Rightarrow> parseBreakPeriods_loop inEvents (breaks @ [b]) lines))"

definition parseBreakPeriods :: "jsstring \<Rightarrow> break_period list" where
  "parseBreakPeriods content = parseBreakPeriods_loop False [] (split_lines content)"

subsection \<open>Bookmarks\<close>




subsection \<open>Hit objects\<close>

text \<open>
  A hit object as both parsers compute it from the fields of a line: the start is the
  parsed time, the end is \<^verbatim>\<open>Math.max(time, endTime)\<close>, the type is the parsed type.
  The renderer computes it inline in \<^verbatim>\<open>parseHitObjects\<close>, the worker in
  \<^verbatim>\<open>parseHitObject\<close>; the two texts are the same but for the timing resolver they call,
  which is the first argument here. \<open>None\<close> is the line with fewer than four fields (the
  renderer's \<^verbatim>\<open>continue\<close>, the worker's \<^verbatim>\<open>null\<close>).
\<close>

record hit_object =
  o_start :: jsnum
  o_end :: jsnum
  o_type :: jsnum

definition slider_duration :: "jsnum \<Rightarrow> jsnum \<Rightarrow> timing \<Rightarrow> jsnum \<Rightarrow> jsnum" where
  "slider_duration len sliderMultiplier tm slides =
     js_mul (js_mul (js_div len (js_mul (js_mul sliderMultiplier (Num 100)) (t_sv tm)))
               (t_beatLength tm)) slides"

definition hit_object_of_parts :: "(jsnum \<Rightarrow> timing) \<Rightarrow> jsnum \<Rightarrow> jsstring list \<Rightarrow> hit_object option" where
  "hit_object_of_parts resolve sliderMultiplier parts =
     (if length parts < 4 then None
      else
        let time = parseInt (parts ! 2);
            type' = parseInt (parts ! 3);
            endTime =
              (if bit_and type' 2 then
                 (if length parts \<ge> 8 then
                    let slides = js_or (parseInt (parts ! 6)) (Num 1);
                        len = js_or (parseFloat (parts ! 7)) (Num 0);
                        tm = resolve time;
                        duration = slider_duration len sliderMultiplier tm slides
                    in js_add time (math_max (Num 0) (math_floor duration))
                  else time)
               else if bit_and type' 8 then
                 (if length parts \<ge> 6 then js_or (parseInt (parts ! 5)) time else time)
               else if bit_and type' 128 then
                 (if length parts \<ge> 6
                  then js_or (parseInt (hd (split_on 58 (parts ! 5)))) time else time)
               else time)
        in Some \<lparr> o_start = time, o_end = math_max time endTime, o_type = type' \<rparr>)"

text \<open>The timing point of a line of the \<^verbatim>\<open>[TimingPoints]\<close> section, in both parsers.\<close>

definition timing_point_of_parts :: "jsstring list \<Rightarrow> timing_point option" where
  "timing_point_of_parts parts =
     (if length parts \<ge> 2 then
        Some \<lparr> tp_time = parseInt (parts ! 0), tp_beatLength = parseFloat (parts ! 1),
               tp_uninherited = (if length parts > 6 then parts ! 6 = str ''1'' else True) \<rparr>
      else None)"

text \<open>\<^verbatim>\<open>s.indexOf(c)\<close>, with \<open>None\<close> for the \<open>-1\<close> of a missing unit.\<close>

definition indexOf :: "jsstring \<Rightarrow> int \<Rightarrow> nat option" where
  "indexOf s c = (if c \<in> set s then Some (length (takeWhile (\<lambda>d. d \<noteq> c) s)) else None)"

text \<open>
  The local variables of \<^verbatim>\<open>parseHitObjects\<close>. The three arrays grow together, by one
  element for each accepted hit object.
\<close>

record hit_state =
  r_section :: jsstring
  r_inHitObjects :: bool
  r_sliderMultiplier :: jsnum
  r_timingPoints :: "timing_point list"
  r_hitStarts :: "jsnum list"
  r_hitEnds :: "jsnum list"
  r_hitTypes :: "jsnum list"

text \<open>
  The end of the loop body: the gap fill, which raises the end of the previous object
  to the start of this one when the previous object is a slider, and the three pushes.
  Reading past the end of an empty array gives \<^verbatim>\<open>undefined\<close>, whose bits are those of
  \<open>NaN\<close>.
\<close>

definition push_hit :: "hit_state \<Rightarrow> hit_object \<Rightarrow> hit_state" where
  "push_hit st ob =
     (let prevType = (if r_hitTypes st = [] then NaN else r_hitTypes st ! (length (r_hitTypes st) - 1));
          ends = (if length (r_hitEnds st) > 0 \<and> bit_and prevType 2
                  then (r_hitEnds st)[length (r_hitEnds st) - 1 :=
                         math_max (r_hitEnds st ! (length (r_hitEnds st) - 1)) (o_start ob)]
                  else r_hitEnds st)
      in st\<lparr> r_hitStarts := r_hitStarts st @ [o_start ob],
              r_hitEnds := ends @ [o_end ob],
              r_hitTypes := r_hitTypes st @ [o_type ob] \<rparr>)"

definition parseHitObjects_line :: "hit_state \<Rightarrow> jsstring \<Rightarrow> hit_state" where
  "parseHitObjects_line st line =
     (let trimmed = js_trim line in
      if trimmed = [] \<or> startsWith trimmed (str ''//'') then st
      else if is_header trimmed then
        (let section' = toLowerCase (butlast (tl trimmed))
         in st\<lparr> r_section := section', r_inHitObjects := (section' = str ''hitobjects'') \<rparr>)
      else if r_section st = str ''difficulty'' then
        (case indexOf trimmed 58 of
           None \<Rightarrow> st
         | Some sep \<Rightarrow>
             let key = toLowerCase (js_trim (take sep trimmed)) in
             if key = str ''slidermultiplier''
             then st\<lparr> r_sliderMultiplier := js_or (parseFloat (drop (sep + 1) trimmed)) (Num 1) \<rparr>
             else st)
      else if r_section st = str ''timingpoints'' then
        (case timing_point_of_parts (split_on 44 trimmed) of
           None \<Rightarrow> st
         | Some tp \<Rightarrow> st\<lparr> r_timingPoints := r_timingPoints st @ [tp] \<rparr>)
      else if r_inHitObjects st then
        (case hit_object_of_parts (getTiming (r_timingPoints st)) (r_sliderMultiplier st)
                (split_on 44 trimmed) of
           None \<Rightarrow> st
         | Some ob \<Rightarrow> push_hit st ob)
      else st)"

definition parseHitObjects_init :: hit_state where
  "parseHitObjects_init =
     \<lparr> r_section = [], r_inHitObjects = False, r_sliderMultiplier = Num 1, r_timingPoints = [],
       r_hitStarts = [], r_hitEnds = [], r_hitTypes = [] \<rparr>"

text \<open>The result \<^verbatim>\<open>{ hitStarts, hitEnds }\<close>.\<close>

definition parseHitObjects :: "jsstring \<Rightarrow> jsnum list \<times> jsnum list" where
  "parseHitObjects content =
     (let st = foldl parseHitObjects_line parseHitObjects_init (split_lines content)
      in (r_hitStarts st, r_hitEnds st))"

section \<open>The scanner worker's parser\<close>

text \<open>
  The worker parses a file in one pass over the content, with indices into it instead
  of substrings. Indices are integers, as some of them start at the sentinel \<open>-1\<close>.
  \<^verbatim>\<open>charCodeAt\<close> outside the string is \<open>NaN\<close>, which equals no code unit: \<open>None\<close>.
\<close>

definition charCodeAt :: "jsstring \<Rightarrow> int \<Rightarrow> int option" where
  "charCodeAt s i = (if 0 \<le> i \<and> i < int (length s) then Some (s ! nat i) else None)"

text \<open>\<^verbatim>\<open>s.slice(a, b)\<close>; every call of the worker has \<open>0 \<le> a\<close>.\<close>

definition js_slice :: "jsstring \<Rightarrow> int \<Rightarrow> int \<Rightarrow> jsstring" where
  "js_slice s a b = take (nat (b - a)) (drop (nat a) s)"

definition is_blank :: "int option \<Rightarrow> bool" where
  "is_blank c = (c = Some 32 \<or> c = Some 9)"

text \<open>\<^verbatim>\<open>while (start < end && (blank at start)) start++\<close>\<close>

function skip_blank :: "jsstring \<Rightarrow> int \<Rightarrow> int \<Rightarrow> int" where
  "skip_blank s start end' =
     (if start < end' \<and> is_blank (charCodeAt s start) then skip_blank s (start + 1) end'
      else start)"
  by pat_completeness auto
termination
  by (relation "measure (\<lambda>(s, start, end'). nat (end' - start))") auto

declare skip_blank.simps [simp del]

text \<open>\<^verbatim>\<open>while (end > start && (blank at end - 1)) end--\<close>\<close>

function trim_right :: "jsstring \<Rightarrow> int \<Rightarrow> int \<Rightarrow> int" where
  "trim_right s start end' =
     (if end' > start \<and> is_blank (charCodeAt s (end' - 1)) then trim_right s start (end' - 1)
      else end')"
  by pat_completeness auto
termination
  by (relation "measure (\<lambda>(s, start, end'). nat (end' - start))") auto

declare trim_right.simps [simp del]

definition extractTrimmed :: "jsstring \<Rightarrow> int \<Rightarrow> int \<Rightarrow> jsstring" where
  "extractTrimmed s start end' =
     (let start' = skip_blank s start end';
          end'' = trim_right s start' end'
      in js_slice s start' end'')"

text \<open>
  \<^verbatim>\<open>fastParseInt\<close>: blanks, a sign, digits. The sign is read at the index where the
  blanks stop, even when that is \<^verbatim>\<open>end\<close>. \<open>None\<close> is \<^verbatim>\<open>null\<close>. The digit loop reads
  below \<^verbatim>\<open>end\<close>, which no caller puts beyond the length of the string.
\<close>

function digits_loop :: "jsstring \<Rightarrow> int \<Rightarrow> int \<Rightarrow> int \<Rightarrow> bool \<Rightarrow> int \<times> bool" where
  "digits_loop s i end' result hasDigit =
     (if i < end' then
        (case charCodeAt s i of
           None \<Rightarrow> (result, hasDigit)
         | Some c \<Rightarrow>
             if c < 48 \<or> c > 57 then (result, hasDigit)
             else digits_loop s (i + 1) end' (result * 10 + (c - 48)) True)
      else (result, hasDigit))"
  by pat_completeness auto
termination
  by (relation "measure (\<lambda>(s, i, end', result, hasDigit). nat (end' - i))") auto

declare digits_loop.simps [simp del]

definition fastParseInt :: "jsstring \<Rightarrow> int \<Rightarrow> int \<Rightarrow> int option" where
  "fastParseInt s start end' =
     (let i = skip_blank s start end';
          charCode = charCodeAt s i;
          sign = (if charCode = Some 45 then - 1 else 1);
          i' = (if charCode = Some 45 \<or> charCode = Some 43 then i + 1 else i);
          (result, hasDigit) = digits_loop s i' end' 0 False
      in if hasDigit then Some (result * sign) else None)"

text \<open>
  \<^verbatim>\<open>matchesAt\<close>: the units from \<^verbatim>\<open>pos\<close>, capital letters lowered, are those of
  \<^verbatim>\<open>match\<close>.
\<close>

definition matchesAt :: "jsstring \<Rightarrow> int \<Rightarrow> jsstring \<Rightarrow> bool" where
  "matchesAt s pos m =
     (if pos + int (length m) > int (length s) then False
      else list_all (\<lambda>i. map_option ascii_lower (charCodeAt s (pos + int i)) = Some (m ! i))
             [0 ..< length m])"

datatype section_id =
  NONE | GENERAL | EDITOR | METADATA | DIFFICULTY | EVENTS | TIMING_POINTS | COLOURS | HIT_OBJECTS

definition identifySection :: "jsstring \<Rightarrow> int \<Rightarrow> int \<Rightarrow> section_id" where
  "identifySection s start end' =
     (let len = end' - start in
      if len = 6 then
        (if matchesAt s start (str ''editor'') then EDITOR
         else if matchesAt s start (str ''events'') then EVENTS
         else if matchesAt s start (str ''colours'') then COLOURS
         else NONE)
      else if len = 7 then (if matchesAt s start (str ''general'') then GENERAL else NONE)
      else if len = 8 then (if matchesAt s start (str ''metadata'') then METADATA else NONE)
      else if len = 10 then
        (if matchesAt s start (str ''difficulty'') then DIFFICULTY
         else if matchesAt s start (str ''hitobjects'') then HIT_OBJECTS
         else NONE)
      else if len = 12 then
        (if matchesAt s start (str ''timingpoints'') then TIMING_POINTS else NONE)
      else NONE)"

text \<open>\<^verbatim>\<open>isImageExtension\<close>: the text after the last dot, lower-cased, is one of six.\<close>

definition isImageExtension :: "jsstring \<Rightarrow> bool" where
  "isImageExtension filename =
     (if 46 \<notin> set filename then False
      else
        let ext = toLowerCase (rev (takeWhile (\<lambda>c. c \<noteq> 46) (rev filename)))
        in ext = str ''jpg'' \<or> ext = str ''jpeg'' \<or> ext = str ''png'' \<or>
           ext = str ''webp'' \<or> ext = str ''gif'' \<or> ext = str ''bmp'')"

text \<open>\<^verbatim>\<open>content.indexOf(c, start)\<close>, with \<open>-1\<close> when there is none.\<close>

definition indexOf_from :: "jsstring \<Rightarrow> int \<Rightarrow> int \<Rightarrow> int" where
  "indexOf_from s c start =
     (let rest = drop (nat start) s
      in if c \<in> set rest then max 0 start + int (length (takeWhile (\<lambda>d. d \<noteq> c) rest)) else - 1)"

definition parseSliderMultiplier :: "jsstring \<Rightarrow> int \<Rightarrow> int \<Rightarrow> jsnum option" where
  "parseSliderMultiplier content start end' =
     (let colonIdx = indexOf_from content 58 start in
      if colonIdx = - 1 \<or> colonIdx \<ge> end' then None
      else
        let key = toLowerCase (extractTrimmed content start colonIdx) in
        if key = str ''slidermultiplier''
        then Some (js_or (parseFloat (extractTrimmed content (colonIdx + 1) end')) (Num 1))
        else None)"

definition parseTimingPoint :: "jsstring \<Rightarrow> int \<Rightarrow> int \<Rightarrow> timing_point option" where
  "parseTimingPoint content start end' =
     timing_point_of_parts (split_on 44 (extractTrimmed content start end'))"

definition parseHitObject :: "jsstring \<Rightarrow> int \<Rightarrow> int \<Rightarrow> jsnum \<Rightarrow> timing_point list \<Rightarrow> hit_object option" where
  "parseHitObject content lineStart lineEnd sliderMultiplier timingPoints =
     hit_object_of_parts (\<lambda>time. getTimingInfo time timingPoints) sliderMultiplier
       (split_on 44 (extractTrimmed content lineStart lineEnd))"

text \<open>
  The worker's state: the section, the slider multiplier, the timing points, the three
  typed arrays up to \<^verbatim>\<open>hitCount\<close> (an \<^verbatim>\<open>Int32Array\<close> stores \<^verbatim>\<open>ToInt32\<close> of what is
  written to it, the \<^verbatim>\<open>Int16Array\<close> of the types \<^verbatim>\<open>ToInt16\<close>; their capacity doubles
  when it is reached, so the arrays behave as growing lists), the break periods, the
  bookmarks and the background of the metadata. The other fields of the metadata are
  written by \<^verbatim>\<open>parseMetadataLine\<close> and \<^verbatim>\<open>parseGeneralLine\<close>, which write nothing else;
  they are left out.
\<close>

record worker_state =
  w_section :: section_id
  w_sliderMultiplier :: jsnum
  w_timingPoints :: "timing_point list"
  w_hitStarts :: "int list"
  w_hitEnds :: "int list"
  w_hitTypes :: "int list"
  w_breakPeriods :: "break_period list"
  w_bookmarks :: "int list"
  w_background :: jsstring

subsection \<open>Events\<close>

text \<open>
  The comma loop of the background branch of \<^verbatim>\<open>parseEventLine\<close>: \<^verbatim>\<open>bgStart\<close> is the
  index after the second comma, \<^verbatim>\<open>bgEnd\<close> the index of the third, where the loop stops.
\<close>

function bg_commas :: "jsstring \<Rightarrow> int \<Rightarrow> int \<Rightarrow> nat \<Rightarrow> int \<Rightarrow> int \<Rightarrow> int \<times> int" where
  "bg_commas content j end' commaCount bgStart bgEnd =
     (if j < end' then
        (if charCodeAt content j = Some 44 then
           (if commaCount + 1 = 2 then bg_commas content (j + 1) end' (commaCount + 1) (j + 1) bgEnd
            else if commaCount + 1 = 3 then (bgStart, j)
            else bg_commas content (j + 1) end' (commaCount + 1) bgStart bgEnd)
         else bg_commas content (j + 1) end' commaCount bgStart bgEnd)
      else (bgStart, bgEnd))"
  by pat_completeness auto
termination
  by (relation "measure (\<lambda>(content, j, end', commaCount, bgStart, bgEnd). nat (end' - j))") auto

declare bg_commas.simps [simp del]

definition is_blank_or_quote :: "int option \<Rightarrow> bool" where
  "is_blank_or_quote c = (c = Some 32 \<or> c = Some 9 \<or> c = Some 34)"

function bg_trim_left :: "jsstring \<Rightarrow> int \<Rightarrow> int \<Rightarrow> int" where
  "bg_trim_left content bgStart bgEnd =
     (if bgStart < bgEnd \<and> is_blank_or_quote (charCodeAt content bgStart)
      then bg_trim_left content (bgStart + 1) bgEnd else bgStart)"
  by pat_completeness auto
termination
  by (relation "measure (\<lambda>(content, bgStart, bgEnd). nat (bgEnd - bgStart))") auto

declare bg_trim_left.simps [simp del]

function bg_trim_right :: "jsstring \<Rightarrow> int \<Rightarrow> int \<Rightarrow> int" where
  "bg_trim_right content bgStart bgEnd =
     (if bgEnd > bgStart \<and> is_blank_or_quote (charCodeAt content (bgEnd - 1))
      then bg_trim_right content bgStart (bgEnd - 1) else bgEnd)"
  by pat_completeness auto
termination
  by (relation "measure (\<lambda>(content, bgStart, bgEnd). nat (bgEnd - bgStart))") auto

declare bg_trim_right.simps [simp del]

text \<open>
  The comma loop of the break branch. \<^verbatim>\<open>breakStart\<close> and \<^verbatim>\<open>breakEnd\<close> start at the
  number \<open>-1\<close> and become what \<^verbatim>\<open>fastParseInt\<close> returns, which may be \<^verbatim>\<open>null\<close>.
\<close>

record break_scan =
  v_commaCount :: nat
  v_breakStart :: "int option"
  v_breakStartIdx :: int
  v_breakEnd :: "int option"
  v_numStart :: int

function break_commas :: "jsstring \<Rightarrow> int \<Rightarrow> int \<Rightarrow> break_scan \<Rightarrow> break_scan" where
  "break_commas content j end' v =
     (if j < end' then
        (if charCodeAt content j = Some 44 then
           (let v1 = v\<lparr> v_commaCount := v_commaCount v + 1 \<rparr> in
            if v_commaCount v1 = 1 then break_commas content (j + 1) end' (v1\<lparr> v_numStart := j + 1 \<rparr>)
            else if v_commaCount v1 = 2 then
              break_commas content (j + 1) end'
                (v1\<lparr> v_breakStart := fastParseInt content (v_numStart v1) j, v_breakStartIdx := j + 1 \<rparr>)
            else if v_commaCount v1 = 3 then
              v1\<lparr> v_breakEnd := fastParseInt content (v_breakStartIdx v1) j \<rparr>
            else break_commas content (j + 1) end' v1)
         else break_commas content (j + 1) end' v)
      else v)"
  by pat_completeness auto
termination
  by (relation "measure (\<lambda>(content, j, end', v). nat (end' - j))") auto

declare break_commas.simps [simp del]

definition parseEventLine :: "jsstring \<Rightarrow> int \<Rightarrow> int \<Rightarrow> worker_state \<Rightarrow> worker_state" where
  "parseEventLine content start end' st =
     (let firstChar = charCodeAt content start in
      if firstChar = Some 48 \<and> start + 1 < end' \<and> charCodeAt content (start + 1) = Some 44 then
        (let (bgStart, bgEnd0) = bg_commas content start end' 0 (- 1) (- 1) in
         if bgStart \<noteq> - 1 then
           (let bgEnd1 = (if bgEnd0 = - 1 then end' else bgEnd0);
                bgStart' = bg_trim_left content bgStart bgEnd1;
                bgEnd' = bg_trim_right content bgStart' bgEnd1;
                bg = js_slice content bgStart' bgEnd'
            in if isImageExtension bg then st\<lparr> w_background := bg \<rparr> else st)
         else st)
      else if firstChar = Some 50 \<and> start + 1 < end' \<and> charCodeAt content (start + 1) = Some 44 then
        (let v = break_commas content start end'
                   \<lparr> v_commaCount = 0, v_breakStart = Some (- 1), v_breakStartIdx = - 1,
                     v_breakEnd = Some (- 1), v_numStart = start \<rparr>;
             v' = (if v_commaCount v = 2 \<and> v_breakStartIdx v \<noteq> - 1
                   then v\<lparr> v_breakEnd := fastParseInt content (v_breakStartIdx v) end' \<rparr> else v)
         in case (v_breakStart v', v_breakEnd v') of
              (Some bs, Some be) \<Rightarrow>
                st\<lparr> w_breakPeriods := w_breakPeriods st @ [\<lparr> b_start = bs, b_end = be \<rparr>] \<rparr>
            | _ \<Rightarrow> st)
      else st)"

subsection \<open>Editor\<close>

text \<open>
  The loop of \<^verbatim>\<open>parseEditorLine\<close> over \<^verbatim>\<open>j <= end\<close>: at each comma and at the end, the
  token since \<^verbatim>\<open>numStart\<close> is parsed if it is not empty.
\<close>

function bookmark_tokens :: "jsstring \<Rightarrow> int \<Rightarrow> int \<Rightarrow> int \<Rightarrow> int list \<Rightarrow> int list" where
  "bookmark_tokens content j end' numStart bookmarks =
     (if j \<le> end' then
        (if j = end' \<or> charCodeAt content j = Some 44 then
           (let bookmarks' =
                  (if j > numStart then
                     (case fastParseInt content numStart j of
                        Some num \<Rightarrow> bookmarks @ [num]
                      | None \<Rightarrow> bookmarks)
                   else bookmarks)
            in bookmark_tokens content (j + 1) end' (j + 1) bookmarks')
         else bookmark_tokens content (j + 1) end' numStart bookmarks)
      else bookmarks)"
  by pat_completeness auto
termination
  by (relation "measure (\<lambda>(content, j, end', numStart, bookmarks). nat (end' + 1 - j))") auto

declare bookmark_tokens.simps [simp del]

definition parseEditorLine :: "jsstring \<Rightarrow> int \<Rightarrow> int \<Rightarrow> worker_state \<Rightarrow> worker_state" where
  "parseEditorLine content start end' st =
     (if matchesAt content start (str ''bookmarks:'') then
        (let bookmarksStart = start + 10
         in st\<lparr> w_bookmarks :=
                  bookmark_tokens content bookmarksStart end' bookmarksStart (w_bookmarks st) \<rparr>)
      else st)"

subsection \<open>Hit objects\<close>

text \<open>
  The \<^verbatim>\<open>HIT_OBJECTS\<close> case of the main loop, for an object that is not \<^verbatim>\<open>null\<close>: the
  gap fill on the typed arrays, then the three writes at \<^verbatim>\<open>hitCount\<close>.
\<close>

definition store_hit :: "worker_state \<Rightarrow> hit_object \<Rightarrow> worker_state" where
  "store_hit st ob =
     (let hitCount = length (w_hitStarts st);
          ends =
            (if hitCount > 0 \<and> and (w_hitTypes st ! (hitCount - 1)) 2 \<noteq> 0
             then (w_hitEnds st)[hitCount - 1 :=
                    toInt32 (math_max (Num (of_int (w_hitEnds st ! (hitCount - 1)))) (o_start ob))]
             else w_hitEnds st)
      in st\<lparr> w_hitStarts := w_hitStarts st @ [toInt32 (o_start ob)],
              w_hitEnds := ends @ [toInt32 (o_end ob)],
              w_hitTypes := w_hitTypes st @ [toInt16 (o_type ob)] \<rparr>)"

subsection \<open>The main loop\<close>

text \<open>The \<^verbatim>\<open>switch\<close> on the section, for the line from \<^verbatim>\<open>lineStart\<close> to \<^verbatim>\<open>lineEnd\<close>.\<close>

definition dispatch_line :: "jsstring \<Rightarrow> int \<Rightarrow> int \<Rightarrow> worker_state \<Rightarrow> worker_state" where
  "dispatch_line content lineStart lineEnd st =
     (case w_section st of
        METADATA \<Rightarrow> st
      | GENERAL \<Rightarrow> st
      | EVENTS \<Rightarrow> parseEventLine content lineStart lineEnd st
      | EDITOR \<Rightarrow> parseEditorLine content lineStart lineEnd st
      | DIFFICULTY \<Rightarrow>
          (case parseSliderMultiplier content lineStart lineEnd of
             Some sm \<Rightarrow> st\<lparr> w_sliderMultiplier := sm \<rparr>
           | None \<Rightarrow> st)
      | TIMING_POINTS \<Rightarrow>
          (case parseTimingPoint content lineStart lineEnd of
             Some tp \<Rightarrow> st\<lparr> w_timingPoints := w_timingPoints st @ [tp] \<rparr>
           | None \<Rightarrow> st)
      | HIT_OBJECTS \<Rightarrow>
          (case parseHitObject content lineStart lineEnd (w_sliderMultiplier st)
                  (w_timingPoints st) of
             Some ob \<Rightarrow> store_hit st ob
           | None \<Rightarrow> st)
      | _ \<Rightarrow> st)"

definition is_line_end_blank :: "int option \<Rightarrow> bool" where
  "is_line_end_blank c = (c = Some 32 \<or> c = Some 9 \<or> c = Some 13 \<or> c = Some 10)"

function trim_line_end :: "jsstring \<Rightarrow> int \<Rightarrow> int \<Rightarrow> int" where
  "trim_line_end content lineStart lineEnd =
     (if lineEnd > lineStart \<and> is_line_end_blank (charCodeAt content (lineEnd - 1))
      then trim_line_end content lineStart (lineEnd - 1) else lineEnd)"
  by pat_completeness auto
termination
  by (relation "measure (\<lambda>(content, lineStart, lineEnd). nat (lineEnd - lineStart))") auto

declare trim_line_end.simps [simp del]

text \<open>
  The body of the loop once a line ends at \<^verbatim>\<open>i\<close> (after the step over the line feed
  of a CRLF pair): trimming, the three \<^verbatim>\<open>continue\<close> cases, the dispatch.
\<close>

definition process_line :: "jsstring \<Rightarrow> int \<Rightarrow> int \<Rightarrow> worker_state \<Rightarrow> worker_state" where
  "process_line content lineStart0 i st =
     (let lineStart = skip_blank content lineStart0 i;
          lineEnd = trim_line_end content lineStart i;
          lineLength = lineEnd - lineStart
      in if lineLength = 0 then st
         else if lineLength \<ge> 2 \<and> charCodeAt content lineStart = Some 47 \<and>
                 charCodeAt content (lineStart + 1) = Some 47 then st
         else if charCodeAt content lineStart = Some 91 \<and>
                 charCodeAt content (lineEnd - 1) = Some 93
           then st\<lparr> w_section := identifySection content (lineStart + 1) (lineEnd - 1) \<rparr>
         else dispatch_line content lineStart lineEnd st)"

text \<open>
  \<^verbatim>\<open>for (let i = 0; i <= contentLength; i++)\<close>, with \<^verbatim>\<open>lineStart\<close> and the state.
\<close>

function parseOsuFile_loop :: "jsstring \<Rightarrow> int \<Rightarrow> int \<Rightarrow> worker_state \<Rightarrow> worker_state" where
  "parseOsuFile_loop content i lineStart st =
     (let contentLength = int (length content) in
      if i \<le> contentLength then
        (let char = (if i < contentLength then charCodeAt content i else Some 10) in
         if char = Some 10 \<or> char = Some 13 \<or> i = contentLength then
           (let i' = (if char = Some 13 \<and> i + 1 < contentLength \<and>
                         charCodeAt content (i + 1) = Some 10 then i + 1 else i)
            in parseOsuFile_loop content (i' + 1) (i' + 1) (process_line content lineStart i' st))
         else parseOsuFile_loop content (i + 1) lineStart st)
      else st)"
  by pat_completeness auto
termination
  by (relation "measure (\<lambda>(content, i, lineStart, st). nat (int (length content) + 1 - i))") auto

declare parseOsuFile_loop.simps [simp del]

record parsed_file =
  p_background :: jsstring
  p_hitStarts :: "int list"
  p_hitEnds :: "int list"
  p_breakPeriods :: "break_period list"
  p_bookmarks :: "int list"

definition parseOsuFile_init :: worker_state where
  "parseOsuFile_init =
     \<lparr> w_section = NONE, w_sliderMultiplier = Num 1, w_timingPoints = [],
       w_hitStarts = [], w_hitEnds = [], w_hitTypes = [],
       w_breakPeriods = [], w_bookmarks = [], w_background = [] \<rparr>"

definition parseOsuFile :: "jsstring \<Rightarrow> parsed_file" where
  "parseOsuFile content =
     (let lineStart = (if charCodeAt content 0 = Some 65279 then 1 else 0);
          st = parseOsuFile_loop content 0 lineStart parseOsuFile_init
      in \<lparr> p_background = w_background st,
           p_hitStarts = w_hitStarts st, p_hitEnds = w_hitEnds st,
           p_breakPeriods = w_breakPeriods st, p_bookmarks = w_bookmarks st \<rparr>)"

section \<open>Properties of the parsers\<close>

subsection \<open>Break periods\<close>

lemma parseInt10_integer: "parseInt10 s = Num q \<Longrightarrow> q = of_int \<lfloor>q\<rfloor>"
proof -
  assume a: "parseInt10 s = Num q"
  obtain sign S where rs: "read_sign (dropWhile is_space s) = (sign, S)"
    by (cases "read_sign (dropWhile is_space s)")
  have "sign = 1 \<or> sign = - 1"
    using rs by (cases "dropWhile is_space s") (auto split: if_splits)
  moreover have "q = sign * of_int (digits_value (takeWhile is_digit S))"
    using a rs by (simp add: parseInt10_def Let_def split: if_splits)
  ultimately show ?thesis by auto
qed

text \<open>The renderer stores a break only with \<open>end > start\<close>.\<close>

lemma break_of_line_ordered:
  assumes "break_of_line trimmed = Some b"
  shows "b_start b < b_end b"
proof -
  let ?parts = "map js_trim (split_on 44 trimmed)"
  let ?s = "parseInt10 (?parts ! 1)" and ?e = "parseInt10 (?parts ! 2)"
  from assms have fin: "isFinite ?s" "isFinite ?e" and gt: "js_gt ?e ?s"
    and b: "b = \<lparr> b_start = int_of ?s, b_end = int_of ?e \<rparr>"
    by (auto simp: break_of_line_def Let_def split: if_splits)
  from fin obtain x y where xy: "?s = Num x" "?e = Num y"
    by (cases ?s; cases ?e) simp_all
  have "x = of_int \<lfloor>x\<rfloor>" "y = of_int \<lfloor>y\<rfloor>"
    using xy parseInt10_integer by blast+
  moreover have "x < y" using gt xy by (simp add: js_gt_def)
  ultimately have "\<lfloor>x\<rfloor> < \<lfloor>y\<rfloor>"
    by (metis of_int_less_iff)
  then show ?thesis using b xy by simp
qed

text \<open>
  Claim C6 fails in the worker. On the Events line \<^verbatim>\<open>2,100,50\<close> the worker's
  \<^verbatim>\<open>parseEventLine\<close> records the break \<open>{100, 50}\<close>, whose end is before its start:
  it tests only that both numbers parsed. The renderer's \<^verbatim>\<open>parseBreakPeriods\<close>
  discards the line. The worker does not know the token \<^verbatim>\<open>break\<close> either: the line
  \<^verbatim>\<open>break,100,500\<close> gives a break in the renderer and none in the worker.
\<close>

theorem worker_break_without_order_check:
  "p_breakPeriods (parseOsuFile (str ''[Events]\<newline>2,100,50'')) =
     [\<lparr> b_start = 100, b_end = 50 \<rparr>] \<and>
   parseBreakPeriods (str ''[Events]\<newline>2,100,50'') = [] \<and>
   p_breakPeriods (parseOsuFile (str ''[Events]\<newline>break,100,500'')) = [] \<and>
   parseBreakPeriods (str ''[Events]\<newline>break,100,500'') =
     [\<lparr> b_start = 100, b_end = 500 \<rparr>]"
  by code_simp

subsection \<open>Scroll velocity after an inherited point\<close>

text \<open>
  The two resolvers on one file: the three timing points above and a slider of length
  100 at 3000. The renderer's \<^verbatim>\<open>parseHitObjects\<close> resolves the scroll velocity 2 and ends
  the slider at 3250; the worker's \<^verbatim>\<open>parseOsuFile\<close> resolves 1 and ends it at 3500.
\<close>

lemma inherited_point_slider_end:
  "p_hitEnds (parseOsuFile (str ''[TimingPoints]\<newline>0,500,4,2,1,60,1,0\<newline>1000,-50,4,2,1,60,0,0\<newline>2000,100,4,2,1,60,0,0\<newline>[HitObjects]\<newline>0,0,3000,2,0,L|1:1,1,100'')) = [3500] \<and>
   snd (parseHitObjects (str ''[TimingPoints]\<newline>0,500,4,2,1,60,1,0\<newline>1000,-50,4,2,1,60,0,0\<newline>2000,100,4,2,1,60,0,0\<newline>[HitObjects]\<newline>0,0,3000,2,0,L|1:1,1,100'')) = [Num 3250]"
  by code_simp

subsection \<open>Background image\<close>

text \<open>
  The renderer's \<^verbatim>\<open>parseBackgroundFilename\<close> is defined and called nowhere: the background
  of an item is the one the worker's \<^verbatim>\<open>parseEventLine\<close> writes into the metadata. Its
  regular expression knows five extensions, without \<^verbatim>\<open>webp\<close>.
\<close>

lemma parseBackgroundFilename_extensions:
  "parseBackgroundFilename (str ''[Events]\<newline>0,0,\"bg.webp\",0,0'') = [] \<and>
   parseBackgroundFilename (str ''[Events]\<newline>0,0,\"bg.png\",0,0'') = str ''bg.png''"
  by code_simp

text \<open>
  The worker on whole files: an image is taken as the background, whatever the case of
  its extension, and a video is not.
\<close>

lemma parseOsuFile_background_examples:
  "p_background (parseOsuFile (str ''[Events]\<newline>0,0,\"bg.png\",0,0'')) = str ''bg.png'' \<and>
   p_background (parseOsuFile (str ''[Events]\<newline>0,0,\"video.mp4\",0,0'')) = [] \<and>
   p_background (parseOsuFile (str ''[Events]\<newline>0,0,\"bg.webp\",0,0'')) = str ''bg.webp'' \<and>
   p_background (parseOsuFile (str ''[Events]\<newline>0,0,\"Cover.JPEG\",0,0'')) = str ''Cover.JPEG''"
  by code_simp

subsection \<open>End before start\<close>

text \<open>
  Claim C9 fails in both parsers. A hit-object line needs four fields, not a time that
  parses: after the slider line \<^verbatim>\<open>0,0,100,2\<close>, the line \<^verbatim>\<open>0,0,abc,1\<close> is accepted with
  the start \<open>NaN\<close>, and the gap fill writes \<^verbatim>\<open>Math.max(100, NaN)\<close>, that is \<open>NaN\<close>, as
  the end of the slider. In the worker the typed array stores it as 0: the slider
  starts at 100 and ends at 0. In the renderer the end is \<open>NaN\<close>, which is not
  \<open>\<ge> 100\<close>.
\<close>

theorem hit_object_end_before_start:
  "parseOsuFile (str ''[HitObjects]\<newline>0,0,100,2\<newline>0,0,abc,1'') =
     \<lparr> p_background = [], p_hitStarts = [100, 0], p_hitEnds = [0, 0],
       p_breakPeriods = [], p_bookmarks = [] \<rparr> \<and>
   parseHitObjects (str ''[HitObjects]\<newline>0,0,100,2\<newline>0,0,abc,1'') =
     ([Num 100, NaN], [NaN, NaN]) \<and>
   \<not> ((0::int) \<ge> 100) \<and> \<not> js_ge NaN (Num 100)"
  by code_simp

subsection \<open>The gap fill\<close>

text \<open>
  The hit object that a line yields in a state of the renderer's loop, if any: the
  conditions under which the loop body reaches its last branch, and the object computed
  there.
\<close>

definition r_line_object :: "hit_state \<Rightarrow> jsstring \<Rightarrow> hit_object option" where
  "r_line_object st line =
     (let trimmed = js_trim line in
      if trimmed = [] \<or> startsWith trimmed (str ''//'') \<or> is_header trimmed \<or>
         r_section st = str ''difficulty'' \<or> r_section st = str ''timingpoints'' \<or>
         \<not> r_inHitObjects st
      then None
      else hit_object_of_parts (getTiming (r_timingPoints st)) (r_sliderMultiplier st)
             (split_on 44 trimmed))"

text \<open>The accepted hit objects of a list of lines, in file order.\<close>

fun r_objects :: "hit_state \<Rightarrow> jsstring list \<Rightarrow> hit_object list" where
  "r_objects st [] = []"
| "r_objects st (line # lines) =
     (case r_line_object st line of
        None \<Rightarrow> r_objects (parseHitObjects_line st line) lines
      | Some ob \<Rightarrow> ob # r_objects (parseHitObjects_line st line) lines)"

definition renderer_objects :: "jsstring \<Rightarrow> hit_object list" where
  "renderer_objects content = r_objects parseHitObjects_init (split_lines content)"

text \<open>
  The rule of the claim, on the list of accepted objects: the end of an object is its
  computed end, raised to the start of the next object when the object is a slider and
  has a next object.
\<close>

fun gap_fill :: "hit_object list \<Rightarrow> jsnum list" where
  "gap_fill [] = []"
| "gap_fill [ob] = [o_end ob]"
| "gap_fill (ob # nxt # obs) =
     (if bit_and (o_type ob) 2 then math_max (o_end ob) (o_start nxt) else o_end ob)
       # gap_fill (nxt # obs)"

lemma gap_fill_length: "length (gap_fill obs) = length obs"
  by (induction obs rule: gap_fill.induct) simp_all

lemma gap_fill_nth:
  "i < length obs \<Longrightarrow>
   gap_fill obs ! i =
     (if i + 1 < length obs \<and> bit_and (o_type (obs ! i)) 2
      then math_max (o_end (obs ! i)) (o_start (obs ! (i + 1))) else o_end (obs ! i))"
proof (induction obs arbitrary: i rule: gap_fill.induct)
  case 1
  then show ?case by simp
next
  case (2 ob)
  then show ?case by simp
next
  case (3 ob nxt obs)
  show ?case
  proof (cases i)
    case 0
    then show ?thesis by simp
  next
    case (Suc j)
    with "3.prems" have "j < length (nxt # obs)" by simp
    from "3.IH" [OF this] Suc show ?thesis by simp
  qed
qed

lemma gap_fill_snoc:
  "obs \<noteq> [] \<Longrightarrow>
   gap_fill (obs @ [ob]) =
     butlast (gap_fill obs) @
       [if bit_and (o_type (last obs)) 2 then math_max (o_end (last obs)) (o_start ob)
        else o_end (last obs), o_end ob]"
proof (induction obs rule: gap_fill.induct)
  case 1
  then show ?case by simp
next
  case (2 x)
  show ?case by simp
next
  case (3 x nxt obs)
  have ne: "gap_fill (nxt # obs) \<noteq> []"
    using gap_fill_length [of "nxt # obs"] by (metis length_0_conv list.distinct(1))
  have "gap_fill ((x # nxt # obs) @ [ob]) =
      (if bit_and (o_type x) 2 then math_max (o_end x) (o_start nxt) else o_end x)
        # gap_fill ((nxt # obs) @ [ob])"
    by simp
  also have "gap_fill ((nxt # obs) @ [ob]) =
      butlast (gap_fill (nxt # obs)) @
       [if bit_and (o_type (last (nxt # obs))) 2
        then math_max (o_end (last (nxt # obs))) (o_start ob)
        else o_end (last (nxt # obs)), o_end ob]"
    by (rule "3.IH") simp
  finally show ?case using ne by simp
qed

lemma gap_fill_last: "obs \<noteq> [] \<Longrightarrow> last (gap_fill obs) = o_end (last obs)"
proof (induction obs rule: gap_fill.induct)
  case (3 ob nxt obs)
  have "gap_fill (nxt # obs) \<noteq> []" by (cases obs) simp_all
  with 3 show ?case by simp
qed simp_all

lemma update_last: "xs \<noteq> [] \<Longrightarrow> xs[length xs - Suc 0 := v] = butlast xs @ [v]"
  by (induction xs rule: rev_induct) (simp_all add: list_update_append)

text \<open>The arrays of a state hold the objects \<open>obs\<close>, gap-filled.\<close>

definition r_holds :: "hit_state \<Rightarrow> hit_object list \<Rightarrow> bool" where
  "r_holds st obs =
     (r_hitStarts st = map o_start obs \<and> r_hitEnds st = gap_fill obs \<and>
      r_hitTypes st = map o_type obs)"

lemma push_hit_holds:
  assumes "r_holds st obs"
  shows "r_holds (push_hit st ob) (obs @ [ob])"
proof (cases "obs = []")
  case True
  with assms show ?thesis by (simp add: r_holds_def push_hit_def)
next
  case False
  have ends: "r_hitEnds st = gap_fill obs" and types: "r_hitTypes st = map o_type obs"
    and starts: "r_hitStarts st = map o_start obs"
    using assms by (simp_all add: r_holds_def)
  have len: "length (gap_fill obs) = length obs" by (rule gap_fill_length)
  have ne: "gap_fill obs \<noteq> []" using False len by (metis length_0_conv)
  have prev: "r_hitTypes st ! (length (r_hitTypes st) - 1) = o_type (last obs)"
    using False types by (simp add: last_conv_nth)
  have lst: "gap_fill obs ! (length (gap_fill obs) - 1) = o_end (last obs)"
    using gap_fill_last [OF False] ne by (simp add: last_conv_nth)
  have same: "butlast (gap_fill obs) @ [o_end (last obs)] = gap_fill obs"
    using gap_fill_last [OF False] ne by (metis append_butlast_last_id)
  have "r_hitEnds (push_hit st ob) = gap_fill (obs @ [ob])"
    unfolding gap_fill_snoc [OF False]
    using False ne types prev lst same
    by (simp add: push_hit_def Let_def ends update_last)
  moreover have "r_hitStarts (push_hit st ob) = map o_start (obs @ [ob])"
    by (simp add: push_hit_def Let_def starts)
  moreover have "r_hitTypes (push_hit st ob) = map o_type (obs @ [ob])"
    by (simp add: push_hit_def Let_def types)
  ultimately show ?thesis by (simp add: r_holds_def)
qed

lemma parseHitObjects_line_object:
  "r_line_object st line = Some ob \<Longrightarrow> parseHitObjects_line st line = push_hit st ob"
  by (auto simp: r_line_object_def parseHitObjects_line_def Let_def split: if_splits)

lemma parseHitObjects_line_no_object:
  assumes "r_line_object st line = None" and "r_holds st obs"
  shows "r_holds (parseHitObjects_line st line) obs"
  using assms
  by (auto simp: r_line_object_def parseHitObjects_line_def Let_def r_holds_def
      split: if_splits option.splits)

lemma parseHitObjects_lines_hold:
  "r_holds st obs \<Longrightarrow>
   r_holds (foldl parseHitObjects_line st lines) (obs @ r_objects st lines)"
proof (induction lines arbitrary: st obs)
  case Nil
  then show ?case by simp
next
  case (Cons line lines)
  show ?case
  proof (cases "r_line_object st line")
    case None
    from parseHitObjects_line_no_object [OF None Cons.prems]
    have "r_holds (parseHitObjects_line st line) obs" .
    from Cons.IH [OF this] None show ?thesis by simp
  next
    case (Some ob)
    have "r_holds (parseHitObjects_line st line) (obs @ [ob])"
      using push_hit_holds [OF Cons.prems] parseHitObjects_line_object [OF Some] by simp
    from Cons.IH [OF this] Some show ?thesis by simp
  qed
qed

lemma parseHitObjects_gap_fill:
  "parseHitObjects content =
     (map o_start (renderer_objects content), gap_fill (renderer_objects content))"
proof -
  have "r_holds parseHitObjects_init []"
    by (simp add: r_holds_def parseHitObjects_init_def)
  from parseHitObjects_lines_hold [OF this, of "split_lines content"]
  show ?thesis
    by (simp add: parseHitObjects_def renderer_objects_def r_holds_def Let_def)
qed

text \<open>
  The lines of the worker's loop: the pairs \<open>(lineStart, i)\<close> at which the loop body
  runs, in order. The loop is the fold of \<open>process_line\<close> over them.
\<close>

function line_spans :: "jsstring \<Rightarrow> int \<Rightarrow> int \<Rightarrow> (int \<times> int) list" where
  "line_spans content i lineStart =
     (let contentLength = int (length content) in
      if i \<le> contentLength then
        (let char = (if i < contentLength then charCodeAt content i else Some 10) in
         if char = Some 10 \<or> char = Some 13 \<or> i = contentLength then
           (let i' = (if char = Some 13 \<and> i + 1 < contentLength \<and>
                         charCodeAt content (i + 1) = Some 10 then i + 1 else i)
            in (lineStart, i') # line_spans content (i' + 1) (i' + 1))
         else line_spans content (i + 1) lineStart)
      else [])"
  by pat_completeness auto
termination
  by (relation "measure (\<lambda>(content, i, lineStart). nat (int (length content) + 1 - i))") auto

declare line_spans.simps [simp del]

lemma parseOsuFile_loop_spans:
  "parseOsuFile_loop content i lineStart st =
     foldl (\<lambda>st (a, b). process_line content a b st) st (line_spans content i lineStart)"
proof (induction content i lineStart st rule: parseOsuFile_loop.induct)
  case (1 content i lineStart st)
  let ?len = "int (length content)"
  let ?char = "if i < ?len then charCodeAt content i else Some 10"
  let ?i' = "if ?char = Some 13 \<and> i + 1 < ?len \<and> charCodeAt content (i + 1) = Some 10
             then i + 1 else i"
  show ?case
  proof (cases "i \<le> ?len")
    case False
    then show ?thesis
      by (simp add: parseOsuFile_loop.simps [of content i] line_spans.simps [of content i])
  next
    case le: True
    show ?thesis
    proof (cases "?char = Some 10 \<or> ?char = Some 13 \<or> i = ?len")
      case True
      have ih: "parseOsuFile_loop content (?i' + 1) (?i' + 1) (process_line content lineStart ?i' st) =
          foldl (\<lambda>st (a, b). process_line content a b st) (process_line content lineStart ?i' st)
            (line_spans content (?i' + 1) (?i' + 1))"
        by (rule "1.IH"(1) [OF refl le refl True refl])
      have l: "parseOsuFile_loop content i lineStart st =
          parseOsuFile_loop content (?i' + 1) (?i' + 1) (process_line content lineStart ?i' st)"
        using le True by (subst parseOsuFile_loop.simps) (simp add: Let_def)
      have r: "line_spans content i lineStart =
          (lineStart, ?i') # line_spans content (?i' + 1) (?i' + 1)"
        using le True by (subst line_spans.simps) (simp add: Let_def)
      show ?thesis unfolding l r ih by simp
    next
      case False
      have ih: "parseOsuFile_loop content (i + 1) lineStart st =
          foldl (\<lambda>st (a, b). process_line content a b st) st
            (line_spans content (i + 1) lineStart)"
        by (rule "1.IH"(2) [OF refl le refl False])
      have l: "parseOsuFile_loop content i lineStart st =
          parseOsuFile_loop content (i + 1) lineStart st"
        using le False by (subst parseOsuFile_loop.simps) (auto simp: Let_def split: if_splits)
      have r: "line_spans content i lineStart = line_spans content (i + 1) lineStart"
        using le False by (subst line_spans.simps) (auto simp: Let_def split: if_splits)
      show ?thesis unfolding l r ih by simp
    qed
  qed
qed

text \<open>
  The hit object that a line yields in a state of the worker's loop, if any: the
  conditions under which \<open>process_line\<close> reaches the \<^verbatim>\<open>HIT_OBJECTS\<close> case, and the result
  of \<^verbatim>\<open>parseHitObject\<close> there.
\<close>

definition w_line_object :: "jsstring \<Rightarrow> worker_state \<Rightarrow> int \<times> int \<Rightarrow> hit_object option" where
  "w_line_object content st sp =
     (let lineStart = skip_blank content (fst sp) (snd sp);
          lineEnd = trim_line_end content lineStart (snd sp);
          lineLength = lineEnd - lineStart
      in if lineLength = 0 \<or>
            (lineLength \<ge> 2 \<and> charCodeAt content lineStart = Some 47 \<and>
             charCodeAt content (lineStart + 1) = Some 47) \<or>
            (charCodeAt content lineStart = Some 91 \<and>
             charCodeAt content (lineEnd - 1) = Some 93) \<or>
            w_section st \<noteq> HIT_OBJECTS
         then None
         else parseHitObject content lineStart lineEnd (w_sliderMultiplier st)
                (w_timingPoints st))"

fun w_objects :: "jsstring \<Rightarrow> worker_state \<Rightarrow> (int \<times> int) list \<Rightarrow> hit_object list" where
  "w_objects content st [] = []"
| "w_objects content st (sp # sps) =
     (case w_line_object content st sp of
        None \<Rightarrow> w_objects content (process_line content (fst sp) (snd sp) st) sps
      | Some ob \<Rightarrow> ob # w_objects content (process_line content (fst sp) (snd sp) st) sps)"

definition worker_objects :: "jsstring \<Rightarrow> hit_object list" where
  "worker_objects content =
     w_objects content parseOsuFile_init
       (line_spans content 0 (if charCodeAt content 0 = Some 65279 then 1 else 0))"

text \<open>
  The rule in the worker, on the list of accepted objects: what is stored is
  \<^verbatim>\<open>ToInt32\<close> of what is written, and the gap fill reads the stored end back.
\<close>

fun w_gap_fill :: "hit_object list \<Rightarrow> int list" where
  "w_gap_fill [] = []"
| "w_gap_fill [ob] = [toInt32 (o_end ob)]"
| "w_gap_fill (ob # nxt # obs) =
     (if bit_and (o_type ob) 2
      then toInt32 (math_max (Num (of_int (toInt32 (o_end ob)))) (o_start nxt))
      else toInt32 (o_end ob))
       # w_gap_fill (nxt # obs)"

lemma w_gap_fill_length: "length (w_gap_fill obs) = length obs"
  by (induction obs rule: w_gap_fill.induct) simp_all

lemma w_gap_fill_nth:
  "i < length obs \<Longrightarrow>
   w_gap_fill obs ! i =
     (if i + 1 < length obs \<and> bit_and (o_type (obs ! i)) 2
      then toInt32 (math_max (Num (of_int (toInt32 (o_end (obs ! i))))) (o_start (obs ! (i + 1))))
      else toInt32 (o_end (obs ! i)))"
proof (induction obs arbitrary: i rule: w_gap_fill.induct)
  case 1
  then show ?case by simp
next
  case (2 ob)
  then show ?case by simp
next
  case (3 ob nxt obs)
  show ?case
  proof (cases i)
    case 0
    then show ?thesis by simp
  next
    case (Suc j)
    with "3.prems" have "j < length (nxt # obs)" by simp
    from "3.IH" [OF this] Suc show ?thesis by simp
  qed
qed

lemma w_gap_fill_snoc:
  "obs \<noteq> [] \<Longrightarrow>
   w_gap_fill (obs @ [ob]) =
     butlast (w_gap_fill obs) @
       [if bit_and (o_type (last obs)) 2
        then toInt32 (math_max (Num (of_int (toInt32 (o_end (last obs))))) (o_start ob))
        else toInt32 (o_end (last obs)), toInt32 (o_end ob)]"
proof (induction obs rule: w_gap_fill.induct)
  case 1
  then show ?case by simp
next
  case (2 x)
  show ?case by simp
next
  case (3 x nxt obs)
  have ne: "w_gap_fill (nxt # obs) \<noteq> []" by (cases obs) simp_all
  have "w_gap_fill ((x # nxt # obs) @ [ob]) =
      (if bit_and (o_type x) 2
       then toInt32 (math_max (Num (of_int (toInt32 (o_end x)))) (o_start nxt))
       else toInt32 (o_end x))
        # w_gap_fill ((nxt # obs) @ [ob])"
    by simp
  also have "w_gap_fill ((nxt # obs) @ [ob]) =
      butlast (w_gap_fill (nxt # obs)) @
       [if bit_and (o_type (last (nxt # obs))) 2
        then toInt32 (math_max (Num (of_int (toInt32 (o_end (last (nxt # obs))))))
               (o_start ob))
        else toInt32 (o_end (last (nxt # obs))), toInt32 (o_end ob)]"
    by (rule "3.IH") simp
  finally show ?case using ne by simp
qed

lemma w_gap_fill_last: "obs \<noteq> [] \<Longrightarrow> last (w_gap_fill obs) = toInt32 (o_end (last obs))"
proof (induction obs rule: w_gap_fill.induct)
  case (3 ob nxt obs)
  have "w_gap_fill (nxt # obs) \<noteq> []" by (cases obs) simp_all
  with 3 show ?case by simp
qed simp_all

text \<open>The slider bit survives the \<^verbatim>\<open>Int16Array\<close> of the types.\<close>

lemma bit1_mod4: "m = n - 4 * j \<Longrightarrow> odd (m div 2) = odd (n div 2)" for m n j :: int
  by presburger

lemma slider_bit_int16: "(and (toInt16 t) 2 \<noteq> 0) = bit_and t 2"
proof (cases t)
  case NaN
  then show ?thesis by (simp add: bit_and_def)
next
  case (Num q)
  define n where "n = js_trunc q"
  have b: "\<And>x::int. (and x 2 \<noteq> 0) = odd (x div 2)"
    using and_exp_eq_0_iff_not_bit [of _ 1] by (simp add: bit_iff_odd)
  have "(n + 32768) mod 65536 = (n + 32768) - 65536 * ((n + 32768) div 65536)"
    by (rule minus_mult_div_eq_mod [symmetric])
  then have "(n + 32768) mod 65536 - 32768 = n - 4 * (16384 * ((n + 32768) div 65536))"
    by simp
  then have s: "odd (((n + 32768) mod 65536 - 32768) div 2) = odd (n div 2)"
    by (rule bit1_mod4)
  have "(n + 2147483648) mod 4294967296 =
      (n + 2147483648) - 4294967296 * ((n + 2147483648) div 4294967296)"
    by (rule minus_mult_div_eq_mod [symmetric])
  then have "(n + 2147483648) mod 4294967296 - 2147483648 =
      n - 4 * (1073741824 * ((n + 2147483648) div 4294967296))"
    by simp
  then have l: "odd (((n + 2147483648) mod 4294967296 - 2147483648) div 2) = odd (n div 2)"
    by (rule bit1_mod4)
  show ?thesis
    using Num s l by (simp add: bit_and_def b n_def)
qed

definition w_holds :: "worker_state \<Rightarrow> hit_object list \<Rightarrow> bool" where
  "w_holds st obs =
     (w_hitStarts st = map (\<lambda>ob. toInt32 (o_start ob)) obs \<and> w_hitEnds st = w_gap_fill obs \<and>
      w_hitTypes st = map (\<lambda>ob. toInt16 (o_type ob)) obs)"

lemma store_hit_holds:
  assumes "w_holds st obs"
  shows "w_holds (store_hit st ob) (obs @ [ob])"
proof (cases "obs = []")
  case True
  with assms show ?thesis by (simp add: w_holds_def store_hit_def)
next
  case False
  have ends: "w_hitEnds st = w_gap_fill obs"
    and types: "w_hitTypes st = map (\<lambda>ob. toInt16 (o_type ob)) obs"
    and starts: "w_hitStarts st = map (\<lambda>ob. toInt32 (o_start ob)) obs"
    using assms by (simp_all add: w_holds_def)
  have len: "length (w_gap_fill obs) = length obs" by (rule w_gap_fill_length)
  have ne: "w_gap_fill obs \<noteq> []" using False len by (metis length_0_conv)
  have prev: "w_hitTypes st ! (length obs - Suc 0) = toInt16 (o_type (last obs))"
    using False types by (simp add: last_conv_nth)
  have lst: "w_gap_fill obs ! (length obs - Suc 0) = toInt32 (o_end (last obs))"
    using w_gap_fill_last [OF False] ne len by (simp add: last_conv_nth)
  have same: "butlast (w_gap_fill obs) @ [toInt32 (o_end (last obs))] = w_gap_fill obs"
    using w_gap_fill_last [OF False] ne by (metis append_butlast_last_id)
  have upd: "\<And>v. (w_gap_fill obs)[length obs - Suc 0 := v] = butlast (w_gap_fill obs) @ [v]"
    using update_last [OF ne] len by simp
  have "w_hitEnds (store_hit st ob) = w_gap_fill (obs @ [ob])"
    unfolding w_gap_fill_snoc [OF False]
    using False prev lst same slider_bit_int16 [of "o_type (last obs)"]
    by (simp add: store_hit_def Let_def ends starts upd)
  moreover have "w_hitStarts (store_hit st ob) = map (\<lambda>ob. toInt32 (o_start ob)) (obs @ [ob])"
    by (simp add: store_hit_def Let_def starts)
  moreover have "w_hitTypes (store_hit st ob) = map (\<lambda>ob. toInt16 (o_type ob)) (obs @ [ob])"
    by (simp add: store_hit_def Let_def types)
  ultimately show ?thesis by (simp add: w_holds_def)
qed

lemma process_line_object:
  "w_line_object content st (a, b) = Some ob \<Longrightarrow> process_line content a b st = store_hit st ob"
  by (auto simp: w_line_object_def process_line_def dispatch_line_def Let_def
      split: if_splits)

lemma parseEventLine_arrays:
  "w_hitStarts (parseEventLine content a b st) = w_hitStarts st \<and>
   w_hitEnds (parseEventLine content a b st) = w_hitEnds st \<and>
   w_hitTypes (parseEventLine content a b st) = w_hitTypes st"
  by (simp add: parseEventLine_def Let_def split: prod.splits option.splits)

lemma process_line_no_object:
  assumes "w_line_object content st (a, b) = None" and "w_holds st obs"
  shows "w_holds (process_line content a b st) obs"
proof -
  have "w_hitStarts (process_line content a b st) = w_hitStarts st \<and>
      w_hitEnds (process_line content a b st) = w_hitEnds st \<and>
      w_hitTypes (process_line content a b st) = w_hitTypes st"
    using assms(1)
    by (auto simp: w_line_object_def process_line_def dispatch_line_def Let_def
        parseEventLine_arrays parseEditorLine_def parseHitObject_def
        split: if_splits option.splits section_id.splits)
  with assms(2) show ?thesis by (simp add: w_holds_def)
qed

lemma process_lines_hold:
  "w_holds st obs \<Longrightarrow>
   w_holds (foldl (\<lambda>st (a, b). process_line content a b st) st sps)
     (obs @ w_objects content st sps)"
proof (induction sps arbitrary: st obs)
  case Nil
  then show ?case by simp
next
  case (Cons sp sps)
  obtain a b where ab: "sp = (a, b)" by (cases sp)
  show ?case
  proof (cases "w_line_object content st (a, b)")
    case None
    from process_line_no_object [OF None Cons.prems]
    have "w_holds (process_line content a b st) obs" .
    from Cons.IH [OF this] None ab show ?thesis by simp
  next
    case (Some ob)
    have "w_holds (process_line content a b st) (obs @ [ob])"
      using store_hit_holds [OF Cons.prems] process_line_object [OF Some] by simp
    from Cons.IH [OF this] Some ab show ?thesis by simp
  qed
qed

lemma parseOsuFile_gap_fill:
  "p_hitStarts (parseOsuFile content) = map (\<lambda>ob. toInt32 (o_start ob)) (worker_objects content) \<and>
   p_hitEnds (parseOsuFile content) = w_gap_fill (worker_objects content)"
proof -
  have "w_holds parseOsuFile_init []"
    by (simp add: w_holds_def parseOsuFile_init_def)
  from process_lines_hold [OF this]
  show ?thesis
    by (simp add: parseOsuFile_def worker_objects_def w_holds_def Let_def
        parseOsuFile_loop_spans)
qed

text \<open>The integers an \<^verbatim>\<open>Int32Array\<close> stores unchanged.\<close>

definition int32 :: "int \<Rightarrow> bool" where
  "int32 n = (- 2147483648 \<le> n \<and> n < 2147483648)"

lemma toInt32_int32: "int32 n \<Longrightarrow> toInt32 (Num (of_int n)) = n"
proof -
  assume "int32 n"
  then have "0 \<le> n + 2147483648" "n + 2147483648 < 4294967296"
    by (simp_all add: int32_def)
  then have "(n + 2147483648) mod 4294967296 = n + 2147483648"
    by (rule mod_pos_pos_trivial)
  moreover have "js_trunc (of_int n) = n"
    by (simp add: js_trunc_def)
  ultimately show ?thesis by simp
qed

text \<open>
  Claim C8, as the code has it. Let \<open>obs\<close> be the accepted hit objects of a file in file
  order, each with its start, its computed end \<^verbatim>\<open>Math.max(time, endTime)\<close> and its type.
  In the renderer the stored starts are the starts of \<open>obs\<close>, and the final end of
  object \<open>i\<close> is \<^verbatim>\<open>Math.max\<close> of its computed end and the start of object \<open>i + 1\<close> when
  it has the slider bit and a successor, and its computed end otherwise. In the worker
  the arrays hold \<^verbatim>\<open>ToInt32\<close> of what is written: the final end of such an object is
  \<^verbatim>\<open>ToInt32\<close> of \<^verbatim>\<open>Math.max\<close> of its stored computed end and the start of object
  \<open>i + 1\<close>, which is the maximum of the two when both are integers of the Int32 range;
  the end of any other object is its stored computed end.
\<close>

theorem gap_fill_rule:
  "fst (parseHitObjects content) = map o_start (renderer_objects content) \<and>
   length (snd (parseHitObjects content)) = length (renderer_objects content) \<and>
   (\<forall>i < length (renderer_objects content).
      snd (parseHitObjects content) ! i =
        (if i + 1 < length (renderer_objects content) \<and>
            bit_and (o_type (renderer_objects content ! i)) 2
         then math_max (o_end (renderer_objects content ! i))
                (o_start (renderer_objects content ! (i + 1)))
         else o_end (renderer_objects content ! i))) \<and>
   p_hitStarts (parseOsuFile content) =
     map (\<lambda>ob. toInt32 (o_start ob)) (worker_objects content) \<and>
   length (p_hitEnds (parseOsuFile content)) = length (worker_objects content) \<and>
   (\<forall>i < length (worker_objects content).
      p_hitEnds (parseOsuFile content) ! i =
        (if i + 1 < length (worker_objects content) \<and>
            bit_and (o_type (worker_objects content ! i)) 2
         then toInt32 (math_max (Num (of_int (toInt32 (o_end (worker_objects content ! i)))))
                (o_start (worker_objects content ! (i + 1))))
         else toInt32 (o_end (worker_objects content ! i)))) \<and>
   (\<forall>i e s. i + 1 < length (worker_objects content) \<and>
      bit_and (o_type (worker_objects content ! i)) 2 \<and>
      o_end (worker_objects content ! i) = Num (of_int e) \<and> int32 e \<and>
      o_start (worker_objects content ! (i + 1)) = Num (of_int s) \<and> int32 s \<longrightarrow>
      p_hitEnds (parseOsuFile content) ! i = max e s)"
proof (intro conjI allI impI)
  show "fst (parseHitObjects content) = map o_start (renderer_objects content)"
    by (simp add: parseHitObjects_gap_fill)
  show "length (snd (parseHitObjects content)) = length (renderer_objects content)"
    by (simp add: parseHitObjects_gap_fill gap_fill_length)
  show "p_hitStarts (parseOsuFile content) =
      map (\<lambda>ob. toInt32 (o_start ob)) (worker_objects content)"
    by (simp add: parseOsuFile_gap_fill)
  show "length (p_hitEnds (parseOsuFile content)) = length (worker_objects content)"
    by (simp add: parseOsuFile_gap_fill w_gap_fill_length)
next
  fix i
  assume "i < length (renderer_objects content)"
  then show "snd (parseHitObjects content) ! i =
        (if i + 1 < length (renderer_objects content) \<and>
            bit_and (o_type (renderer_objects content ! i)) 2
         then math_max (o_end (renderer_objects content ! i))
                (o_start (renderer_objects content ! (i + 1)))
         else o_end (renderer_objects content ! i))"
    by (simp only: parseHitObjects_gap_fill snd_conv gap_fill_nth)
next
  fix i
  assume "i < length (worker_objects content)"
  then show "p_hitEnds (parseOsuFile content) ! i =
        (if i + 1 < length (worker_objects content) \<and>
            bit_and (o_type (worker_objects content ! i)) 2
         then toInt32 (math_max (Num (of_int (toInt32 (o_end (worker_objects content ! i)))))
                (o_start (worker_objects content ! (i + 1))))
         else toInt32 (o_end (worker_objects content ! i)))"
    by (simp only: parseOsuFile_gap_fill w_gap_fill_nth)
next
  fix i e s
  assume a: "i + 1 < length (worker_objects content) \<and>
      bit_and (o_type (worker_objects content ! i)) 2 \<and>
      o_end (worker_objects content ! i) = Num (of_int e) \<and> int32 e \<and>
      o_start (worker_objects content ! (i + 1)) = Num (of_int s) \<and> int32 s"
  then have i: "i < length (worker_objects content)" by simp
  have m: "int32 (max e s)" using a by (simp add: int32_def max_def)
  have "p_hitEnds (parseOsuFile content) ! i =
      toInt32 (math_max (Num (of_int (toInt32 (Num (of_int e))))) (Num (of_int s)))"
    using a by (simp only: parseOsuFile_gap_fill w_gap_fill_nth [OF i]) simp
  also have "\<dots> = toInt32 (Num (of_int (max e s)))"
    using a by (simp only: toInt32_int32 math_max.simps of_int_max)
  also have "\<dots> = max e s" using m by (rule toInt32_int32)
  finally show "p_hitEnds (parseOsuFile content) ! i = max e s" .
qed

theorem gap_fill_rule_witness:
  "p_hitEnds (parseOsuFile (str ''[HitObjects]\<newline>0,0,40,2\<newline>0,0,100,1'')) ! 0 =
     max 40 100"
proof -
  let ?c = "str ''[HitObjects]\<newline>0,0,40,2\<newline>0,0,100,1''"
  have obs: "worker_objects ?c =
      [\<lparr> o_start = Num 40, o_end = Num 40, o_type = Num 2 \<rparr>,
       \<lparr> o_start = Num 100, o_end = Num 100, o_type = Num 1 \<rparr>]"
    by code_simp
  have b: "bit_and (Num 2) 2" by code_simp
  have "0 + 1 < length (worker_objects ?c) \<and>
      bit_and (o_type (worker_objects ?c ! 0)) 2 \<and>
      o_end (worker_objects ?c ! 0) = Num (of_int 40) \<and> int32 40 \<and>
      o_start (worker_objects ?c ! (0 + 1)) = Num (of_int 100) \<and> int32 100"
    by (simp add: obs b int32_def)
  with gap_fill_rule [of ?c] show ?thesis by blast
qed

text \<open>
  As stated the claim fails in the worker once a time leaves the Int32 range: after the
  slider at 100, an object at \<open>2147483748\<close> is stored with the start \<open>-2147483548\<close>, and
  the slider's end becomes \<open>-2147483548\<close>, which is the maximum neither of 100 and the
  parsed start nor of 100 and the stored start.
\<close>

theorem gap_fill_int32_counterexample:
  "p_hitStarts (parseOsuFile (str ''[HitObjects]\<newline>0,0,100,2\<newline>0,0,2147483748,1'')) =
     [100, - 2147483548] \<and>
   p_hitEnds (parseOsuFile (str ''[HitObjects]\<newline>0,0,100,2\<newline>0,0,2147483748,1'')) =
     [- 2147483548, - 2147483548] \<and>
   worker_objects (str ''[HitObjects]\<newline>0,0,100,2\<newline>0,0,2147483748,1'') =
     [\<lparr> o_start = Num 100, o_end = Num 100, o_type = Num 2 \<rparr>,
      \<lparr> o_start = Num 2147483748, o_end = Num 2147483748, o_type = Num 1 \<rparr>] \<and>
   (- 2147483548 :: int) \<noteq> max 100 2147483748 \<and>
   (- 2147483548 :: int) \<noteq> max 100 (- 2147483548)"
  by code_simp

section \<open>The two parsers on the same file\<close>

subsection \<open>Indices and substrings\<close>

lemma js_slice_empty: "b \<le> a \<Longrightarrow> js_slice s a b = []"
  by (simp add: js_slice_def)

lemma js_slice_length:
  "0 \<le> a \<Longrightarrow> a \<le> b \<Longrightarrow> b \<le> int (length s) \<Longrightarrow> length (js_slice s a b) = nat (b - a)"
  by (simp add: js_slice_def)

lemma js_slice_Cons:
  assumes "0 \<le> a" "a < b" "a < int (length s)"
  shows "js_slice s a b = s ! nat a # js_slice s (a + 1) b"
proof -
  have d: "drop (nat a) s = s ! nat a # drop (Suc (nat a)) s"
    using assms by (simp add: Cons_nth_drop_Suc)
  have n: "nat (b - a) = Suc (nat (b - (a + 1)))" using assms by simp
  have "nat (a + 1) = Suc (nat a)" using assms by simp
  then show ?thesis
    unfolding js_slice_def d n by simp
qed

lemma js_slice_snoc:
  assumes "0 \<le> a" "a < b" "b \<le> int (length s)"
  shows "js_slice s a b = js_slice s a (b - 1) @ [s ! nat (b - 1)]"
proof -
  have n: "nat (b - a) = Suc (nat (b - 1 - a))" using assms by simp
  have l: "nat (b - 1 - a) < length (drop (nat a) s)" using assms by simp
  have "take (Suc (nat (b - 1 - a))) (drop (nat a) s) =
      take (nat (b - 1 - a)) (drop (nat a) s) @ [drop (nat a) s ! nat (b - 1 - a)]"
    using l by (rule take_Suc_conv_app_nth)
  moreover have "drop (nat a) s ! nat (b - 1 - a) = s ! nat (b - 1)"
  proof -
    have idx: "nat a + nat (b - 1 - a) = nat (b - 1)" using assms by linarith
    have "nat a \<le> length s" using assms by linarith
    then have "drop (nat a) s ! nat (b - 1 - a) = s ! (nat a + nat (b - 1 - a))"
      by (rule nth_drop)
    then show ?thesis by (simp only: idx)
  qed
  ultimately show ?thesis
    unfolding js_slice_def n by (simp only:)
qed

lemma js_slice_nth:
  assumes "0 \<le> a" "b \<le> int (length s)" "0 \<le> k" "a + k < b"
  shows "charCodeAt s (a + k) = Some (js_slice s a b ! nat k)"
proof -
  have k: "nat k < nat (b - a)" using assms by linarith
  have le: "nat a \<le> length s" using assms by linarith
  have "js_slice s a b ! nat k = drop (nat a) s ! nat k"
    unfolding js_slice_def using k by (rule nth_take)
  also have "\<dots> = s ! (nat a + nat k)" using le by (rule nth_drop)
  also have "nat a + nat k = nat (a + k)" using assms by linarith
  finally have "js_slice s a b ! nat k = s ! nat (a + k)" .
  moreover have "0 \<le> a + k" "a + k < int (length s)" using assms by linarith+
  ultimately show ?thesis by (simp add: charCodeAt_def)
qed

lemma js_slice_drop:
  "0 \<le> a \<Longrightarrow> js_slice s (a + int k) b = drop k (js_slice s a b)"
proof -
  assume a: "0 \<le> a"
  have 1: "nat (a + int k) = k + nat a" using a by linarith
  have 2: "nat (b - (a + int k)) = nat (b - a) - k" by linarith
  show ?thesis
    unfolding js_slice_def 1 2 by (simp only: drop_take drop_drop)
qed

lemma js_slice_take:
  "js_slice s a (b - int m) = take (nat (b - a) - m) (js_slice s a b)"
proof -
  have "nat (b - int m - a) = nat (b - a) - m" by linarith
  then show ?thesis by (simp add: js_slice_def min_def)
qed

text \<open>The units that the worker trims, and its trimming on a substring.\<close>

definition blank_unit :: "int \<Rightarrow> bool" where
  "blank_unit c = (c = 32 \<or> c = 9)"

definition end_unit :: "int \<Rightarrow> bool" where
  "end_unit c = (c = 32 \<or> c = 9 \<or> c = 13 \<or> c = 10)"


definition wtrim :: "jsstring \<Rightarrow> jsstring" where
  "wtrim s = rev (dropWhile end_unit (rev (dropWhile blank_unit s)))"

lemma skip_blank_slice:
  "0 \<le> a \<Longrightarrow> skip_blank s a b = a + int (length (takeWhile blank_unit (js_slice s a b)))"
proof (induction s a b rule: skip_blank.induct)
  case (1 s start end')
  show ?case
  proof (cases "start < end' \<and> is_blank (charCodeAt s start)")
    case True
    then have lt: "start < int (length s)"
      by (auto simp: is_blank_def charCodeAt_def split: if_splits)
    have c: "blank_unit (s ! nat start)"
      using True lt "1.prems" by (auto simp: is_blank_def charCodeAt_def blank_unit_def)
    have sl: "js_slice s start end' = s ! nat start # js_slice s (start + 1) end'"
      using "1.prems" True lt by (intro js_slice_Cons) simp_all
    have "skip_blank s start end' = skip_blank s (start + 1) end'"
      using True by (subst skip_blank.simps) simp
    also have "\<dots> = start + 1 + int (length (takeWhile blank_unit (js_slice s (start + 1) end')))"
      using "1.IH" [OF True] "1.prems" by simp
    finally show ?thesis using c sl by simp
  next
    case False
    have "takeWhile blank_unit (js_slice s start end') = []"
    proof (cases "start < end' \<and> start < int (length s)")
      case True
      then have sl: "js_slice s start end' = s ! nat start # js_slice s (start + 1) end'"
        using "1.prems" by (intro js_slice_Cons) simp_all
      have "\<not> blank_unit (s ! nat start)"
        using False True "1.prems" by (auto simp: is_blank_def charCodeAt_def blank_unit_def)
      then show ?thesis using sl by simp
    next
      case False
      then have "js_slice s start end' = []"
        using "1.prems" by (auto simp: js_slice_def)
      then show ?thesis by simp
    qed
    moreover have "skip_blank s start end' = start"
      using False by (subst skip_blank.simps) auto
    ultimately show ?thesis by simp
  qed
qed


lemma trim_line_end_slice:
  "0 \<le> a \<Longrightarrow> b \<le> int (length s) \<Longrightarrow>
   trim_line_end s a b = b - int (length (takeWhile end_unit (rev (js_slice s a b))))"
proof (induction s a b rule: trim_line_end.induct)
  case (1 s start end')
  show ?case
  proof (cases "end' > start")
    case False
    then have "js_slice s start end' = []" by (simp add: js_slice_empty)
    moreover have "trim_line_end s start end' = end'"
      using False by (subst trim_line_end.simps) auto
    ultimately show ?thesis by simp
  next
    case gt: True
    have sl: "js_slice s start end' = js_slice s start (end' - 1) @ [s ! nat (end' - 1)]"
      using "1.prems" gt by (intro js_slice_snoc) simp_all
    have cc: "charCodeAt s (end' - 1) = Some (s ! nat (end' - 1))"
      using "1.prems" gt by (simp add: charCodeAt_def)
    show ?thesis
    proof (cases "is_line_end_blank (charCodeAt s (end' - 1))")
      case True
      then have c: "end_unit (s ! nat (end' - 1))"
        using cc by (simp add: is_line_end_blank_def end_unit_def)
      have "trim_line_end s start end' = trim_line_end s start (end' - 1)"
        using True gt by (subst trim_line_end.simps) simp
      also have "\<dots> = end' - 1 -
          int (length (takeWhile end_unit (rev (js_slice s start (end' - 1)))))"
        using "1.IH" "1.prems" True gt by simp
      finally show ?thesis using c sl by simp
    next
      case False
      then have c: "\<not> end_unit (s ! nat (end' - 1))"
        using cc by (simp add: is_line_end_blank_def end_unit_def)
      have "trim_line_end s start end' = end'"
        using False by (subst trim_line_end.simps) auto
      then show ?thesis using c sl by simp
    qed
  qed
qed

text \<open>
  A window \<open>(a, b)\<close> on the content, trimmed as the loop body trims it: the indices stay
  inside the window and the text between them is the trimmed text of the window.
\<close>

lemma trimmed_window:
  assumes "0 \<le> a" "a \<le> b" "b \<le> int (length s)"
  defines "ls \<equiv> skip_blank s a b"
  defines "le \<equiv> trim_line_end s ls b"
  shows "a \<le> ls \<and> ls \<le> le \<and> le \<le> b \<and> js_slice s ls le = wtrim (js_slice s a b)"
proof -
  let ?raw = "js_slice s a b"
  let ?k = "length (takeWhile blank_unit ?raw)"
  have lraw: "length ?raw = nat (b - a)" using assms(1-3) by (rule js_slice_length)
  have ls: "ls = a + int ?k" unfolding ls_def using assms(1) by (rule skip_blank_slice)
  have k: "?k \<le> length ?raw" by (rule length_takeWhile_le)
  have ls_b: "ls \<le> b" using ls k lraw assms by linarith
  have ls0: "0 \<le> ls" using ls assms by linarith
  have r1: "js_slice s ls b = dropWhile blank_unit ?raw"
    unfolding ls using assms(1) by (simp add: js_slice_drop dropWhile_eq_drop [symmetric])
  let ?r1 = "dropWhile blank_unit ?raw"
  let ?m = "length (takeWhile end_unit (rev ?r1))"
  have le: "le = b - int ?m"
    unfolding le_def using trim_line_end_slice [OF ls0 assms(3)] r1 by simp
  have lr1: "length ?r1 = nat (b - ls)"
    using js_slice_length [OF ls0 ls_b assms(3)] r1 by simp
  have m: "?m \<le> length ?r1"
    using length_takeWhile_le [of end_unit "rev ?r1"] by simp
  have le_ls: "ls \<le> le" using le m lr1 ls_b by linarith
  have "js_slice s ls le = take (nat (b - ls) - ?m) (js_slice s ls b)"
    unfolding le by (rule js_slice_take)
  also have "\<dots> = take (length ?r1 - ?m) ?r1" using r1 lr1 by simp
  also have "\<dots> = rev (drop ?m (rev ?r1))" by (simp add: rev_drop [symmetric] drop_rev)
  also have "\<dots> = rev (dropWhile end_unit (rev ?r1))"
    by (simp add: dropWhile_eq_drop [symmetric])
  finally have "js_slice s ls le = wtrim ?raw" by (simp add: wtrim_def)
  moreover have "a \<le> ls" using ls by simp
  moreover have "le \<le> b" using le by simp
  ultimately show ?thesis using le_ls by simp
qed

subsection \<open>The line scanner against the split\<close>



























subsection \<open>The loop body on a window\<close>









text \<open>What the loop body reads at the ends of a window.\<close>

lemma window_reads:
  assumes "0 \<le> ls" "ls \<le> le" "le \<le> int (length s)"
  defines "t \<equiv> js_slice s ls le"
  shows "length t = nat (le - ls)"
    and "t \<noteq> [] \<Longrightarrow> charCodeAt s ls = Some (hd t)"
    and "length t \<ge> 2 \<Longrightarrow> charCodeAt s (ls + 1) = Some (t ! 1)"
    and "t \<noteq> [] \<Longrightarrow> charCodeAt s (le - 1) = Some (last t)"
proof -
  show len: "length t = nat (le - ls)" unfolding t_def using assms(1-3) by (rule js_slice_length)
  {
    assume ne: "t \<noteq> []"
    then have "0 < length t" by simp
    with len have lt: "ls < le" by linarith
    have "charCodeAt s (ls + 0) = Some (js_slice s ls le ! nat 0)"
      using assms(1,3) lt by (intro js_slice_nth) simp_all
    then show "charCodeAt s ls = Some (hd t)" using ne by (simp add: t_def hd_conv_nth)
    have "charCodeAt s (ls + (le - 1 - ls)) = Some (js_slice s ls le ! nat (le - 1 - ls))"
      using assms(1,3) lt by (intro js_slice_nth) simp_all
    moreover have "nat (le - 1 - ls) = length t - 1" using len lt by linarith
    ultimately show "charCodeAt s (le - 1) = Some (last t)"
      using ne by (simp add: t_def last_conv_nth)
  }
  {
    assume "length t \<ge> 2"
    then have lt: "ls + 1 < le" using len by linarith
    have "charCodeAt s (ls + 1) = Some (js_slice s ls le ! nat 1)"
      using assms(1,3) lt by (intro js_slice_nth) simp_all
    then show "charCodeAt s (ls + 1) = Some (t ! 1)" by (simp add: t_def)
  }
qed

subsection \<open>Section names\<close>




text \<open>
  \<^verbatim>\<open>toLowerCase\<close> and the lowering of capital letters agree on whether a string is a
  given ASCII word without the letter \<open>k\<close>.
\<close>

lemma toLowerCase_ascii:
  assumes "\<forall>x \<in> set t. x \<noteq> 107 \<and> x \<noteq> 775 \<and> x \<noteq> 304 \<and> x \<noteq> 8490"
  shows "(toLowerCase s = t) = (map ascii_lower s = t)"
  using assms
proof (induction s arbitrary: t)
  case Nil
  show ?case by (simp add: toLowerCase_def)
next
  case (Cons c s)
  have tl: "toLowerCase (c # s) = lower_units c @ toLowerCase s"
    by (simp add: toLowerCase_def)
  show ?case
  proof (cases t)
    case Nil
    then show ?thesis by (simp add: tl lower_units_def)
  next
    case (Cons x t')
    have ih: "(toLowerCase s = t') = (map ascii_lower s = t')"
      using Cons.prems Cons by (intro Cons.IH) simp
    have x: "x \<noteq> 107" "x \<noteq> 304" "x \<noteq> 8490" and t': "\<forall>y \<in> set t'. y \<noteq> 775"
      using Cons.prems Cons by simp_all
    consider "65 \<le> c \<and> c \<le> 90" | "c = 8490" | "c = 304"
      | "\<not> (65 \<le> c \<and> c \<le> 90) \<and> c \<noteq> 8490 \<and> c \<noteq> 304" by blast
    then show ?thesis
    proof cases
      case 1
      then have "lower_units c = [c + 32]" "ascii_lower c = c + 32"
        by (simp_all add: lower_units_def ascii_lower_def)
      then show ?thesis using ih Cons by (simp add: tl)
    next
      case 2
      then have "lower_units c = [107]" "ascii_lower c = 8490"
        by (simp_all add: lower_units_def ascii_lower_def)
      then show ?thesis using x Cons by (simp add: tl)
    next
      case 3
      then have lu: "lower_units c = [105, 775]" and al: "ascii_lower c = 304"
        by (simp_all add: lower_units_def ascii_lower_def)
      have "lower_units c @ toLowerCase s \<noteq> x # t'"
      proof
        assume "lower_units c @ toLowerCase s = x # t'"
        then have "t' = 775 # toLowerCase s" using lu by simp
        with t' show False by simp
      qed
      then show ?thesis using al x Cons by (simp add: tl)
    next
      case 4
      then have "lower_units c = [c]" "ascii_lower c = c"
        by (simp_all add: lower_units_def ascii_lower_def)
      then show ?thesis using ih Cons by (simp add: tl)
    qed
  qed
qed


subsection \<open>The slider multiplier\<close>










subsection \<open>The timing resolvers without inherited points of non-negative beat length\<close>




subsection \<open>One line in both parsers\<close>













subsection \<open>The accepted hit objects of the two parsers\<close>











subsection \<open>Equal hit arrays\<close>




section \<open>The background of the worker\<close>


text \<open>
  The units that the background branch of \<^verbatim>\<open>parseEventLine\<close> strips from both ends of
  the field: space, tab and the double quote.
\<close>

definition quote_unit :: "int \<Rightarrow> bool" where
  "quote_unit c = (c = 32 \<or> c = 9 \<or> c = 34)"

definition qtrim :: "jsstring \<Rightarrow> jsstring" where
  "qtrim s = rev (dropWhile quote_unit (rev (dropWhile quote_unit s)))"

text \<open>What the comma loop returns, read as a window of the content that holds \<open>f\<close>.\<close>

definition bg_field :: "jsstring \<Rightarrow> int \<Rightarrow> int \<times> int \<Rightarrow> jsstring \<Rightarrow> bool" where
  "bg_field content end' r f =
     (0 \<le> fst r \<and> fst r \<le> (if snd r = - 1 then end' else snd r) \<and>
      (if snd r = - 1 then end' else snd r) \<le> end' \<and>
      js_slice content (fst r) (if snd r = - 1 then end' else snd r) = f)"

text \<open>The two trimming loops take the units to strip off the two ends of a window.\<close>

lemma bg_trim_left_slice:
  "0 \<le> a \<Longrightarrow> bg_trim_left s a b = a + int (length (takeWhile quote_unit (js_slice s a b)))"
proof (induction s a b rule: bg_trim_left.induct)
  case (1 s start end')
  show ?case
  proof (cases "start < end' \<and> is_blank_or_quote (charCodeAt s start)")
    case True
    then have lt: "start < int (length s)"
      by (auto simp: is_blank_or_quote_def charCodeAt_def split: if_splits)
    have c: "quote_unit (s ! nat start)"
      using True lt "1.prems" by (auto simp: is_blank_or_quote_def charCodeAt_def quote_unit_def)
    have sl: "js_slice s start end' = s ! nat start # js_slice s (start + 1) end'"
      using "1.prems" True lt by (intro js_slice_Cons) simp_all
    have "bg_trim_left s start end' = bg_trim_left s (start + 1) end'"
      using True by (subst bg_trim_left.simps) simp
    also have "\<dots> = start + 1 + int (length (takeWhile quote_unit (js_slice s (start + 1) end')))"
      using "1.IH" [OF True] "1.prems" by simp
    finally show ?thesis using c sl by simp
  next
    case False
    have "takeWhile quote_unit (js_slice s start end') = []"
    proof (cases "start < end' \<and> start < int (length s)")
      case True
      then have sl: "js_slice s start end' = s ! nat start # js_slice s (start + 1) end'"
        using "1.prems" by (intro js_slice_Cons) simp_all
      have "\<not> quote_unit (s ! nat start)"
        using False True "1.prems"
        by (auto simp: is_blank_or_quote_def charCodeAt_def quote_unit_def)
      then show ?thesis using sl by simp
    next
      case False
      then have "js_slice s start end' = []"
        using "1.prems" by (auto simp: js_slice_def)
      then show ?thesis by simp
    qed
    moreover have "bg_trim_left s start end' = start"
      using False by (subst bg_trim_left.simps) auto
    ultimately show ?thesis by simp
  qed
qed

lemma bg_trim_right_slice:
  "0 \<le> a \<Longrightarrow> b \<le> int (length s) \<Longrightarrow>
   bg_trim_right s a b = b - int (length (takeWhile quote_unit (rev (js_slice s a b))))"
proof (induction s a b rule: bg_trim_right.induct)
  case (1 s start end')
  show ?case
  proof (cases "end' > start")
    case False
    then have "js_slice s start end' = []" by (simp add: js_slice_empty)
    moreover have "bg_trim_right s start end' = end'"
      using False by (subst bg_trim_right.simps) auto
    ultimately show ?thesis by simp
  next
    case gt: True
    have sl: "js_slice s start end' = js_slice s start (end' - 1) @ [s ! nat (end' - 1)]"
      using "1.prems" gt by (intro js_slice_snoc) simp_all
    have cc: "charCodeAt s (end' - 1) = Some (s ! nat (end' - 1))"
      using "1.prems" gt by (simp add: charCodeAt_def)
    show ?thesis
    proof (cases "is_blank_or_quote (charCodeAt s (end' - 1))")
      case True
      then have c: "quote_unit (s ! nat (end' - 1))"
        using cc by (simp add: is_blank_or_quote_def quote_unit_def)
      have "bg_trim_right s start end' = bg_trim_right s start (end' - 1)"
        using True gt by (subst bg_trim_right.simps) simp
      also have "\<dots> = end' - 1 -
          int (length (takeWhile quote_unit (rev (js_slice s start (end' - 1)))))"
        using "1.IH" "1.prems" True gt by simp
      finally show ?thesis using c sl by simp
    next
      case False
      then have c: "\<not> quote_unit (s ! nat (end' - 1))"
        using cc by (simp add: is_blank_or_quote_def quote_unit_def)
      have "bg_trim_right s start end' = end'"
        using False by (subst bg_trim_right.simps) auto
      then show ?thesis using c sl by simp
    qed
  qed
qed

lemma bg_trim_slice:
  assumes "0 \<le> a" "a \<le> b" "b \<le> int (length s)"
  shows "js_slice s (bg_trim_left s a b) (bg_trim_right s (bg_trim_left s a b) b) =
     qtrim (js_slice s a b)"
proof -
  let ?raw = "js_slice s a b"
  let ?k = "length (takeWhile quote_unit ?raw)"
  define st where "st = bg_trim_left s a b"
  define en where "en = bg_trim_right s st b"
  have lraw: "length ?raw = nat (b - a)" using assms by (rule js_slice_length)
  have st: "st = a + int ?k" unfolding st_def using assms(1) by (rule bg_trim_left_slice)
  have k: "?k \<le> length ?raw" by (rule length_takeWhile_le)
  have st_b: "st \<le> b" using st k lraw assms by linarith
  have st0: "0 \<le> st" using st assms by linarith
  have r1: "js_slice s st b = dropWhile quote_unit ?raw"
    unfolding st using assms(1) by (simp add: js_slice_drop dropWhile_eq_drop [symmetric])
  let ?r1 = "dropWhile quote_unit ?raw"
  let ?m = "length (takeWhile quote_unit (rev ?r1))"
  have en: "en = b - int ?m"
    unfolding en_def using bg_trim_right_slice [OF st0 assms(3)] r1 by simp
  have lr1: "length ?r1 = nat (b - st)"
    using js_slice_length [OF st0 st_b assms(3)] r1 by simp
  have "js_slice s st en = take (nat (b - st) - ?m) (js_slice s st b)"
    unfolding en by (rule js_slice_take)
  also have "\<dots> = take (length ?r1 - ?m) ?r1" using r1 lr1 by simp
  also have "\<dots> = rev (drop ?m (rev ?r1))" by (simp add: rev_drop [symmetric] drop_rev)
  also have "\<dots> = rev (dropWhile quote_unit (rev ?r1))"
    by (simp add: dropWhile_eq_drop [symmetric])
  finally have "js_slice s st en = qtrim ?raw" by (simp add: qtrim_def)
  then show ?thesis by (simp add: st_def en_def)
qed

lemma split_on_nonempty: "split_on sep s \<noteq> []"
  by (induction s) (auto simp: neq_Nil_conv split: if_splits elim: cons_first.elims)

lemma cons_first_length: "xs \<noteq> [] \<Longrightarrow> length (cons_first c xs) = length xs"
  by (cases xs) simp_all

lemma cons_first_nth_0: "xs \<noteq> [] \<Longrightarrow> cons_first c xs ! 0 = c # xs ! 0"
  by (cases xs) simp_all

lemma cons_first_nth_Suc: "xs \<noteq> [] \<Longrightarrow> cons_first c xs ! Suc k = xs ! Suc k"
  by (cases xs) simp_all


text \<open>
  The comma loop, started at \<open>j\<close> with \<open>n\<close> commas counted, finds the field that
  \<^verbatim>\<open>split(',')\<close> gives at index 2 of the line.
\<close>

lemma bg_commas_fields:
  assumes "0 \<le> j" "j \<le> end'" "end' \<le> int (length content)" "n \<le> 2"
    and "n = 2 \<Longrightarrow> 0 \<le> bs \<and> bs \<le> j"
    and "3 \<le> n + length (split_on 44 (js_slice content j end'))"
    and "be = - 1"
  shows "bg_field content end' (bg_commas content j end' n bs be)
     ((if n = 2 then js_slice content bs j else []) @
      split_on 44 (js_slice content j end') ! (2 - n))"
  using assms
proof (induction content j end' n bs be rule: bg_commas.induct)
  case (1 content j end' n bs be)
  note step = bg_commas.simps [of content j end' n bs be]
  let ?rest = "js_slice content j end'"
  let ?rest' = "js_slice content (j + 1) end'"
  show ?case
  proof (cases "j < end'")
    case False
    then have je: "j = end'" using "1.prems"(2) by simp
    have rest: "?rest = []" using je by (simp add: js_slice_empty)
    have n2: "n = 2" using "1.prems"(4,6) rest by simp
    have r: "bg_commas content j end' n bs be = (bs, - 1)"
      unfolding step using False "1.prems"(7) by simp
    show ?thesis
      unfolding r using n2 rest "1.prems"(5) je by (simp add: bg_field_def)
  next
    case lt: True
    have jl: "j < int (length content)" using lt "1.prems"(3) by simp
    have cc: "charCodeAt content j = Some (content ! nat j)"
      using "1.prems"(1) jl by (simp add: charCodeAt_def)
    have rest: "?rest = content ! nat j # ?rest'"
      using "1.prems"(1) lt jl by (rule js_slice_Cons)
    have ne: "split_on 44 ?rest' \<noteq> []" by (rule split_on_nonempty)
    show ?thesis
    proof (cases "content ! nat j = 44")
      case comma: True
      have c44: "charCodeAt content j = Some 44" using cc comma by simp
      have sp: "split_on 44 ?rest = [] # split_on 44 ?rest'"
        using rest comma by simp
      consider (n0) "n = 0" | (n1) "n = 1" | (n2) "n = 2"
        using "1.prems"(4) by linarith
      then show ?thesis
      proof cases
        case n1
        have r: "bg_commas content j end' n bs be = bg_commas content (j + 1) end' (n + 1) (j + 1) be"
          unfolding step using lt c44 n1 by simp
        have "bg_field content end' (bg_commas content (j + 1) end' (n + 1) (j + 1) be)
            ((if n + 1 = 2 then js_slice content (j + 1) (j + 1) else []) @
             split_on 44 ?rest' ! (2 - (n + 1)))"
        proof (rule "1.IH"(1) [OF lt c44])
          show "n + 1 = 2" using n1 by simp
          show "0 \<le> j + 1" using "1.prems"(1) by simp
          show "j + 1 \<le> end'" using lt by simp
          show "end' \<le> int (length content)" by (rule "1.prems"(3))
          show "n + 1 \<le> 2" using n1 by simp
          show "0 \<le> j + 1 \<and> j + 1 \<le> j + 1" using "1.prems"(1) by simp
          show "3 \<le> n + 1 + length (split_on 44 ?rest')"
            using n1 ne by (cases "split_on 44 ?rest'") simp_all
          show "be = - 1" by (rule "1.prems"(7))
        qed
        then show ?thesis
          unfolding r using n1 sp by (simp add: js_slice_empty)
      next
        case n2
        have r: "bg_commas content j end' n bs be = (bs, j)"
          unfolding step using lt c44 n2 by simp
        show ?thesis
          unfolding r using n2 sp "1.prems"(1,5) lt by (simp add: bg_field_def)
      next
        case n0
        have r: "bg_commas content j end' n bs be = bg_commas content (j + 1) end' (n + 1) bs be"
          unfolding step using lt c44 n0 by simp
        have "bg_field content end' (bg_commas content (j + 1) end' (n + 1) bs be)
            ((if n + 1 = 2 then js_slice content bs (j + 1) else []) @
             split_on 44 ?rest' ! (2 - (n + 1)))"
        proof (rule "1.IH"(2) [OF lt c44])
          show "n + 1 \<noteq> 2" "n + 1 \<noteq> 3" using n0 by simp_all
          show "0 \<le> j + 1" using "1.prems"(1) by simp
          show "j + 1 \<le> end'" using lt by simp
          show "end' \<le> int (length content)" by (rule "1.prems"(3))
          show "n + 1 \<le> 2" using n0 by simp
          show "0 \<le> bs \<and> bs \<le> j + 1" if "n + 1 = 2" using that n0 by simp
          show "3 \<le> n + 1 + length (split_on 44 ?rest')"
            using "1.prems"(6) sp by simp
          show "be = - 1" by (rule "1.prems"(7))
        qed
        then show ?thesis
          unfolding r using n0 sp by simp
      qed
    next
      case other: False
      have c44: "charCodeAt content j \<noteq> Some 44" using cc other by simp
      have sp: "split_on 44 ?rest = cons_first (content ! nat j) (split_on 44 ?rest')"
        using rest other by simp
      have r: "bg_commas content j end' n bs be = bg_commas content (j + 1) end' n bs be"
        unfolding step using lt c44 by simp
      have ih: "bg_field content end' (bg_commas content (j + 1) end' n bs be)
          ((if n = 2 then js_slice content bs (j + 1) else []) @
           split_on 44 ?rest' ! (2 - n))"
      proof (rule "1.IH"(3) [OF lt c44])
        show "0 \<le> j + 1" using "1.prems"(1) by simp
        show "j + 1 \<le> end'" using lt by simp
        show "end' \<le> int (length content)" by (rule "1.prems"(3))
        show "n \<le> 2" by (rule "1.prems"(4))
        show "0 \<le> bs \<and> bs \<le> j + 1" if "n = 2" using that "1.prems"(5) by simp
        show "3 \<le> n + length (split_on 44 ?rest')"
          using "1.prems"(6) sp ne by (simp add: cons_first_length)
        show "be = - 1" by (rule "1.prems"(7))
      qed
      show ?thesis
      proof (cases "n = 2")
        case True
        have bs: "0 \<le> bs" "bs \<le> j" using "1.prems"(5) True by simp_all
        have "js_slice content bs (j + 1) = js_slice content bs (j + 1 - 1) @ [content ! nat (j + 1 - 1)]"
          using bs jl by (intro js_slice_snoc) simp_all
        then have sn: "js_slice content bs (j + 1) = js_slice content bs j @ [content ! nat j]"
          by simp
        have "split_on 44 ?rest ! 0 = content ! nat j # split_on 44 ?rest' ! 0"
          unfolding sp using ne by (rule cons_first_nth_0)
        then show ?thesis
          unfolding r using ih True sn by simp
      next
        case False
        then obtain k where k: "2 - n = Suc k" using "1.prems"(4) by (cases "2 - n") simp_all
        have "split_on 44 ?rest ! (2 - n) = split_on 44 ?rest' ! (2 - n)"
          unfolding sp k using ne by (rule cons_first_nth_Suc)
        then show ?thesis
          unfolding r using ih False by simp
      qed
    qed
  qed
qed

lemma image_literals:
  "str ''jpg'' = [106, 112, 103]" "str ''jpeg'' = [106, 112, 101, 103]"
  "str ''png'' = [112, 110, 103]" "str ''webp'' = [119, 101, 98, 112]"
  "str ''gif'' = [103, 105, 102]" "str ''bmp'' = [98, 109, 112]"
  "str ''0,'' = [48, 44]"
  by (simp_all add: str_def)

text \<open>
  None of the six extensions has a letter that a unit outside ASCII lower-cases to, so
  \<^verbatim>\<open>toLowerCase\<close> compares as lowering the capital letters does.
\<close>

lemma isImageExtension_ascii:
  "isImageExtension filename =
     (46 \<in> set filename \<and>
      map ascii_lower (rev (takeWhile (\<lambda>c. c \<noteq> 46) (rev filename))) \<in>
        {str ''jpg'', str ''jpeg'', str ''png'', str ''gif'', str ''bmp'', str ''webp''})"
proof -
  let ?e = "rev (takeWhile (\<lambda>c. c \<noteq> 46) (rev filename))"
  have "(toLowerCase ?e = str ''jpg'') = (map ascii_lower ?e = str ''jpg'')"
    "(toLowerCase ?e = str ''jpeg'') = (map ascii_lower ?e = str ''jpeg'')"
    "(toLowerCase ?e = str ''png'') = (map ascii_lower ?e = str ''png'')"
    "(toLowerCase ?e = str ''webp'') = (map ascii_lower ?e = str ''webp'')"
    "(toLowerCase ?e = str ''gif'') = (map ascii_lower ?e = str ''gif'')"
    "(toLowerCase ?e = str ''bmp'') = (map ascii_lower ?e = str ''bmp'')"
    by (rule toLowerCase_ascii, simp add: image_literals)+
  then show ?thesis
    unfolding isImageExtension_def Let_def by auto
qed


text \<open>The text after the last dot is the extension: what follows a dot and holds none.\<close>

lemma extension_after_last_dot:
  "(46 \<in> set f \<and> P (rev (takeWhile (\<lambda>c. c \<noteq> 46) (rev f)))) =
   (\<exists>stem ext. f = stem @ 46 # ext \<and> 46 \<notin> set ext \<and> P ext)"
proof
  assume a: "46 \<in> set f \<and> P (rev (takeWhile (\<lambda>c. c \<noteq> 46) (rev f)))"
  let ?t = "takeWhile (\<lambda>c. c \<noteq> 46) (rev f)" and ?d = "dropWhile (\<lambda>c. c \<noteq> 46) (rev f)"
  have "?d \<noteq> []" using a by (simp add: dropWhile_eq_Nil_conv)
  moreover have "hd ?d = 46" using \<open>?d \<noteq> []\<close> hd_dropWhile [of "\<lambda>c. c \<noteq> 46" "rev f"] by simp
  ultimately obtain d' where d: "?d = 46 # d'" by (cases ?d) simp_all
  have "rev f = ?t @ ?d" by simp
  then have "f = rev (?t @ 46 # d')" unfolding d [symmetric] by (metis rev_rev_ident)
  then have "f = rev d' @ 46 # rev ?t" by simp
  moreover have "46 \<notin> set (rev ?t)" using set_takeWhileD [of 46 "\<lambda>c. c \<noteq> 46" "rev f"] by auto
  ultimately show "\<exists>stem ext. f = stem @ 46 # ext \<and> 46 \<notin> set ext \<and> P ext"
    using a by blast
next
  assume "\<exists>stem ext. f = stem @ 46 # ext \<and> 46 \<notin> set ext \<and> P ext"
  then obtain stem ext where f: "f = stem @ 46 # ext" and e: "46 \<notin> set ext" and p: "P ext"
    by blast
  have "rev f = rev ext @ 46 # rev stem" using f by simp
  moreover have "takeWhile (\<lambda>c. c \<noteq> 46) (rev ext @ 46 # rev stem) = rev ext"
    using e by (simp add: takeWhile_tail) auto
  ultimately have "rev (takeWhile (\<lambda>c. c \<noteq> 46) (rev f)) = ext" by simp
  then show "46 \<in> set f \<and> P (rev (takeWhile (\<lambda>c. c \<noteq> 46) (rev f)))"
    using f p by simp
qed

text \<open>
  The background branch of \<^verbatim>\<open>parseEventLine\<close> on a window that starts with \<^verbatim>\<open>0,\<close> and
  has a third comma-delimited field: the field, stripped, becomes the background when
  its extension is one of the six, and nothing changes otherwise.
\<close>

lemma parseEventLine_background:
  assumes "0 \<le> start" "end' \<le> int (length content)"
    and "startsWith (js_slice content start end') (str ''0,'')"
    and "3 \<le> length (split_on 44 (js_slice content start end'))"
  shows "parseEventLine content start end' st =
     (let filename = qtrim (split_on 44 (js_slice content start end') ! 2);
          ext = rev (takeWhile (\<lambda>c. c \<noteq> 46) (rev filename))
      in if 46 \<in> set filename \<and>
            map ascii_lower ext \<in>
              {str ''jpg'', str ''jpeg'', str ''png'', str ''gif'', str ''bmp'', str ''webp''}
         then st\<lparr> w_background := filename \<rparr> else st)"
proof -
  let ?line = "js_slice content start end'"
  have t2: "take 2 ?line = [48, 44]"
    using assms(3) by (simp add: startsWith_def image_literals numeral_2_eq_2)
  have "length (take 2 ?line) = 2" unfolding t2 by simp
  then have l2: "2 \<le> length ?line" by simp
  have se: "start \<le> end'"
  proof (rule ccontr)
    assume "\<not> start \<le> end'"
    then have "?line = []" by (simp add: js_slice_empty)
    then show False using l2 by simp
  qed
  have len: "length ?line = nat (end' - start)" using assms(1) se assms(2) by (rule js_slice_length)
  have lt: "start + 1 < end'" using l2 len by linarith
  have h: "hd ?line = 48" and n1: "?line ! 1 = 44"
    using t2 l2 by (cases ?line; cases "tl ?line"; simp)+
  have ne: "?line \<noteq> []" using l2 by auto
  have c0: "charCodeAt content start = Some 48"
    using window_reads(2) [OF assms(1) se assms(2) ne] h by simp
  have c1: "charCodeAt content (start + 1) = Some 44"
    using window_reads(3) [OF assms(1) se assms(2) l2] n1 by simp
  obtain bs be where r: "bg_commas content start end' 0 (- 1) (- 1) = (bs, be)"
    by (cases "bg_commas content start end' 0 (- 1) (- 1)")
  have "bg_field content end' (bg_commas content start end' 0 (- 1) (- 1))
      ((if (0::nat) = 2 then js_slice content (- 1) start else []) @
       split_on 44 ?line ! (2 - 0))"
    using assms(1) se assms(2) _ _ _ refl
    by (rule bg_commas_fields) (use assms(4) in simp_all)
  then have bf: "bg_field content end' (bs, be) (split_on 44 ?line ! 2)"
    unfolding r by simp
  define be1 where "be1 = (if be = - 1 then end' else be)"
  have b: "0 \<le> bs" "bs \<le> be1" "be1 \<le> end'" "js_slice content bs be1 = split_on 44 ?line ! 2"
    using bf by (auto simp: bg_field_def be1_def split: if_splits)
  have bl: "be1 \<le> int (length content)" using b(3) assms(2) by simp
  have w: "js_slice content (bg_trim_left content bs be1)
      (bg_trim_right content (bg_trim_left content bs be1) be1) =
      qtrim (split_on 44 ?line ! 2)"
    using bg_trim_slice [OF b(1,2) bl] b(4) by simp
  have bs1: "bs \<noteq> - 1" using b(1) by simp
  let ?bg = "qtrim (split_on 44 ?line ! 2)"
  have "parseEventLine content start end' st =
      (if isImageExtension ?bg then st\<lparr> w_background := ?bg \<rparr> else st)"
    unfolding parseEventLine_def Let_def
    using c0 c1 lt bs1 by (simp add: r be1_def [symmetric] w)
  then show ?thesis
    unfolding Let_def by (simp only: isImageExtension_ascii)
qed

text \<open>
  Claim C7, for the worker, whose \<^verbatim>\<open>parseEventLine\<close> is the one writer of the background.
  The line is the window from \<^verbatim>\<open>lineStart\<close> to \<^verbatim>\<open>i\<close> of the content, trimmed as the
  main loop trims it. A background declaration is a line of the Events section that
  starts with \<^verbatim>\<open>0,\<close> and has a third comma-delimited field. The file name is that field
  without the spaces, tabs and double quotes at its two ends, and its extension is the
  text after its last dot. The line makes the file name the background if and only if
  the extension, compared without regard to case, is one of \<^verbatim>\<open>jpg\<close>, \<^verbatim>\<open>jpeg\<close>, \<^verbatim>\<open>png\<close>,
  \<^verbatim>\<open>gif\<close>, \<^verbatim>\<open>bmp\<close>, \<^verbatim>\<open>webp\<close>; otherwise it changes nothing, so the file name of a
  video, such as \<^verbatim>\<open>video.mp4\<close>, is rejected.
\<close>

theorem background_line_accepted:
  assumes "0 \<le> lineStart" "lineStart \<le> i" "i \<le> int (length content)"
    and "w_section st = EVENTS"
    and "startsWith (wtrim (js_slice content lineStart i)) (str ''0,'')"
    and "3 \<le> length (split_on 44 (wtrim (js_slice content lineStart i)))"
  shows "process_line content lineStart i st =
     (let filename = qtrim (split_on 44 (wtrim (js_slice content lineStart i)) ! 2);
          ext = rev (takeWhile (\<lambda>c. c \<noteq> 46) (rev filename))
      in if 46 \<in> set filename \<and>
            map ascii_lower ext \<in>
              {str ''jpg'', str ''jpeg'', str ''png'', str ''gif'', str ''bmp'', str ''webp''}
         then st\<lparr> w_background := filename \<rparr> else st)"
proof -
  define ls where "ls = skip_blank content lineStart i"
  define le where "le = trim_line_end content ls i"
  let ?t = "wtrim (js_slice content lineStart i)"
  have w: "lineStart \<le> ls \<and> ls \<le> le \<and> le \<le> i \<and> js_slice content ls le = ?t"
    unfolding ls_def le_def using assms(1-3) by (rule trimmed_window)
  have b: "0 \<le> ls" "ls \<le> le" "le \<le> int (length content)"
    using w assms(1,3) by simp_all
  have sl: "js_slice content ls le = ?t" using w by simp
  have t2: "take 2 ?t = [48, 44]"
    using assms(5) by (simp add: startsWith_def image_literals numeral_2_eq_2)
  have "length (take 2 ?t) = 2" unfolding t2 by simp
  then have l2: "2 \<le> length ?t" by simp
  then have ne: "?t \<noteq> []" by auto
  have h: "hd ?t = 48"
    using t2 ne by (cases ?t) simp_all
  have len: "length ?t = nat (le - ls)"
    using js_slice_length [OF b] sl by simp
  have c0: "charCodeAt content ls = Some 48"
    using window_reads(2) [OF b] ne h sl by simp
  have pl: "process_line content lineStart i st = parseEventLine content ls le st"
    unfolding process_line_def Let_def ls_def [symmetric] le_def [symmetric]
    using c0 len l2 assms(4) by (simp add: dispatch_line_def)
  show ?thesis
    unfolding pl
    using parseEventLine_background [OF b(1,3), of st] assms(5,6) unfolding sl by simp
qed

theorem background_line_accepted_witness:
  "process_line (str '' 0,0,\"bg.webp\",0,0'') 0 18 (parseOsuFile_init\<lparr> w_section := EVENTS \<rparr>) =
     parseOsuFile_init\<lparr> w_section := EVENTS, w_background := str ''bg.webp'' \<rparr>"
proof -
  let ?c = "str '' 0,0,\"bg.webp\",0,0''"
  let ?st = "parseOsuFile_init\<lparr> w_section := EVENTS \<rparr>"
  have 1: "(0::int) \<le> 0" "(0::int) \<le> 18" "18 \<le> int (length ?c)" by (simp_all add: str_def)
  have s: "w_section ?st = EVENTS" by simp
  have 2: "startsWith (wtrim (js_slice ?c 0 18)) (str ''0,'')" by code_simp
  have 3: "3 \<le> length (split_on 44 (wtrim (js_slice ?c 0 18)))" by code_simp
  have f: "qtrim (split_on 44 (wtrim (js_slice ?c 0 18)) ! 2) = str ''bg.webp''" by code_simp
  have e: "rev (takeWhile (\<lambda>c. c \<noteq> 46) (rev (str ''bg.webp''))) = str ''webp''" by code_simp
  have d: "46 \<in> set (str ''bg.webp'')" "map ascii_lower (str ''webp'') = str ''webp''"
    by code_simp+
  show ?thesis
    using background_line_accepted [OF 1 s 2 3]
    unfolding Let_def f e by (simp add: d)
qed

end
